theory Spec2Isabelle
  imports Main "HOL-Library.Char_ord" "HOL-Library.List_Lexorder"
begin

section \<open>JavaScript values as the survey server handles them\<close>

text \<open>
  \<^verbatim>\<open>server.js\<close> receives its payloads from \<^verbatim>\<open>express.json()\<close> and its stored list from
  \<^verbatim>\<open>JSON.parse\<close>, so every value it handles is a JSON value. An object is a list of
  (key, value) pairs with distinct keys, in the order the members were added (JavaScript
  lists integer-like keys first; nothing below depends on the order of the members of an
  object). A number is an integer (ratings and counts) or one of the two infinite numbers,
  which \<^verbatim>\<open>JSON.parse\<close> gives for a literal beyond the range of the doubles such as
  \<^verbatim>\<open>1e400\<close>: \<^verbatim>\<open>JInfinity False\<close> is \<^verbatim>\<open>Infinity\<close> and \<^verbatim>\<open>JInfinity True\<close> is
  \<^verbatim>\<open>-Infinity\<close>. Numbers with a fraction are not modelled, and \<^verbatim>\<open>-0\<close> is not told
  from \<^verbatim>\<open>0\<close> (they are equal for \<^verbatim>\<open>===\<close>, both are falsy and both are written
  \<^verbatim>\<open>0\<close>). The decimal text of an integer is written in full, which is how JavaScript
  writes the integers that are exact as doubles (up to \<^verbatim>\<open>2^53\<close>); the properties below
  speak of the text of a number only in evaluated examples. Strings are lists of 8-bit
  characters.
\<close>

datatype jsval =
    JNull
  | JBool bool
  | JNum int
  | JInfinity bool
  | JStr string
  | JArr "jsval list"
  | JObj "(string \<times> jsval) list"

text \<open>The exceptions the handlers can meet, by kind.\<close>

datatype error = TypeError | SyntaxError | ENOENT | EACCES

text \<open>\<^verbatim>\<open>error.message\<close>: the model keeps the kind of the error as its message.\<close>

fun message :: "error \<Rightarrow> string" where
  "message TypeError = ''TypeError''"
| "message SyntaxError = ''SyntaxError''"
| "message ENOENT = ''ENOENT''"
| "message EACCES = ''EACCES''"

subsection \<open>Decimal notation\<close>

definition digit_char :: "nat \<Rightarrow> char" where
  "digit_char d = char_of (48 + d)"

fun show_nat :: "nat \<Rightarrow> string" where
  "show_nat n = (if n < 10 then [digit_char n] else show_nat (n div 10) @ [digit_char (n mod 10)])"

declare show_nat.simps [simp del]

definition show_int :: "int \<Rightarrow> string" where
  "show_int i = (if i < 0 then CHR ''-'' # show_nat (nat (- i)) else show_nat (nat i))"

definition is_digit :: "char \<Rightarrow> bool" where
  "is_digit c \<longleftrightarrow> CHR ''0'' \<le> c \<and> c \<le> CHR ''9''"

definition digit_val :: "char \<Rightarrow> nat" where
  "digit_val c = of_char c - 48"

text \<open>The value of a digit string, most significant digit first.\<close>

definition read_nat :: "string \<Rightarrow> nat" where
  "read_nat ds = foldl (\<lambda>acc c. 10 * acc + digit_val c) 0 ds"

subsection \<open>Truthiness, property access, \<^verbatim>\<open>String(value)\<close>\<close>

text \<open>\<^verbatim>\<open>!value\<close> is true for \<^verbatim>\<open>null\<close>, \<^verbatim>\<open>false\<close>, \<^verbatim>\<open>0\<close> and \<^verbatim>\<open>''\<close>; arrays and objects are truthy.\<close>

fun truthy :: "jsval \<Rightarrow> bool" where
  "truthy JNull = False"
| "truthy (JBool b) = b"
| "truthy (JNum n) = (n \<noteq> 0)"
| "truthy (JInfinity b) = True"
| "truthy (JStr s) = (s \<noteq> [])"
| "truthy (JArr xs) = True"
| "truthy (JObj kvs) = True"

text \<open>
  What \<^verbatim>\<open>obj[key]\<close> evaluates to: \<^verbatim>\<open>undefined\<close>, an own property's value, or a member
  inherited from \<^verbatim>\<open>Object.prototype\<close> (a built-in function or object, named by its key).
\<close>

datatype lookup = Undefined | Own jsval | Inherited string

text \<open>The property names every object inherits from \<^verbatim>\<open>Object.prototype\<close>.\<close>

definition Object_prototype :: "string list" where
  "Object_prototype =
     [''constructor'', ''__defineGetter__'', ''__defineSetter__'', ''hasOwnProperty'',
      ''__lookupGetter__'', ''__lookupSetter__'', ''isPrototypeOf'', ''propertyIsEnumerable'',
      ''toString'', ''valueOf'', ''__proto__'', ''toLocaleString'']"

definition inherited :: "string \<Rightarrow> lookup" where
  "inherited k = (if k \<in> set Object_prototype then Inherited k else Undefined)"

text \<open>An array index is a canonical decimal string: digits, with no leading zero.\<close>

definition array_index :: "string \<Rightarrow> nat option" where
  "array_index k =
     (if k \<noteq> [] \<and> list_all is_digit k \<and> (k = ''0'' \<or> hd k \<noteq> CHR ''0'')
      then Some (read_nat k) else None)"

text \<open>
  \<^verbatim>\<open>value[key]\<close>. Reading a property of \<^verbatim>\<open>null\<close> throws a TypeError. Arrays and strings
  have their indexed elements and \<^verbatim>\<open>length\<close>; the methods of \<^verbatim>\<open>Array.prototype\<close>,
  \<^verbatim>\<open>String.prototype\<close>, \<^verbatim>\<open>Number.prototype\<close> and \<^verbatim>\<open>Boolean.prototype\<close> are not
  listed: the records of the store are objects.
\<close>

fun get_prop :: "jsval \<Rightarrow> string \<Rightarrow> error + lookup" where
  "get_prop JNull k = Inl TypeError"
| "get_prop (JObj kvs) k = Inr (case map_of kvs k of Some v \<Rightarrow> Own v | None \<Rightarrow> inherited k)"
| "get_prop (JArr xs) k =
     Inr (case array_index k of
            Some i \<Rightarrow> if i < length xs then Own (xs ! i) else Undefined
          | None \<Rightarrow> if k = ''length'' then Own (JNum (int (length xs))) else inherited k)"
| "get_prop (JStr s) k =
     Inr (case array_index k of
            Some i \<Rightarrow> if i < length s then Own (JStr [s ! i]) else Undefined
          | None \<Rightarrow> if k = ''length'' then Own (JNum (int (length s))) else inherited k)"
| "get_prop (JBool b) k = Inr (inherited k)"
| "get_prop (JNum n) k = Inr (inherited k)"
| "get_prop (JInfinity b) k = Inr (inherited k)"

text \<open>\<^verbatim>\<open>!p\<close> for the result of a property access: built-in members are truthy.\<close>

fun prop_truthy :: "lookup \<Rightarrow> bool" where
  "prop_truthy Undefined = False"
| "prop_truthy (Own v) = truthy v"
| "prop_truthy (Inherited k) = True"

text \<open>
  \<^verbatim>\<open>obj[key] = value\<close> on an object: an existing key keeps its place, a new key goes last.
\<close>

fun assign :: "(string \<times> jsval) list \<Rightarrow> string \<Rightarrow> jsval \<Rightarrow> (string \<times> jsval) list" where
  "assign [] k v = [(k, v)]"
| "assign ((k', v') # kvs) k v = (if k' = k then (k, v) # kvs else (k', v') # assign kvs k v)"

text \<open>
  An assignment to a property of a primitive is ignored (the module is not in strict
  mode); on \<^verbatim>\<open>null\<close> it throws. The handler only assigns to a payload whose
  \<^verbatim>\<open>userType\<close> is truthy, which no array has.
\<close>

fun set_prop :: "jsval \<Rightarrow> string \<Rightarrow> jsval \<Rightarrow> error + jsval" where
  "set_prop JNull k v = Inl TypeError"
| "set_prop (JObj kvs) k v = Inr (JObj (assign kvs k v))"
| "set_prop x k v = Inr x"

text \<open>
  \<^verbatim>\<open>String(value)\<close>. An array is its elements joined by commas, \<^verbatim>\<open>null\<close> elements as
  the empty string. A plain object is \<^verbatim>\<open>[object Object]\<close> through
  \<^verbatim>\<open>Object.prototype.toString\<close>; when it has an own \<^verbatim>\<open>toString\<close> property (a JSON
  value, so not callable) the conversion to a primitive throws a TypeError.
\<close>

fun ToString :: "jsval \<Rightarrow> error + string"
  and join_elements :: "jsval list \<Rightarrow> error + string" where
  "ToString JNull = Inr ''null''"
| "ToString (JBool b) = Inr (if b then ''true'' else ''false'')"
| "ToString (JNum n) = Inr (show_int n)"
| "ToString (JInfinity b) = Inr (if b then ''-Infinity'' else ''Infinity'')"
| "ToString (JStr s) = Inr s"
| "ToString (JArr xs) = join_elements xs"
| "ToString (JObj kvs) =
     (if ''toString'' \<in> set (map fst kvs) then Inl TypeError else Inr ''[object Object]'')"
| "join_elements [] = Inr []"
| "join_elements [x] = (if x = JNull then Inr [] else ToString x)"
| "join_elements (x # y # ys) =
     (case (if x = JNull then Inr [] else ToString x) of
        Inl e \<Rightarrow> Inl e
      | Inr s \<Rightarrow> (case join_elements (y # ys) of
                    Inl e \<Rightarrow> Inl e
                  | Inr t \<Rightarrow> Inr (s @ '','' @ t)))"

text \<open>
  \<^verbatim>\<open>String(f)\<close> for an inherited member: the source text of a native function, and
  \<^verbatim>\<open>[object Object]\<close> for \<^verbatim>\<open>__proto__\<close>, which is \<^verbatim>\<open>Object.prototype\<close> itself.
\<close>

definition native_text :: "string \<Rightarrow> string" where
  "native_text k =
     (if k = ''__proto__'' then ''[object Object]''
      else ''function '' @ (if k = ''constructor'' then ''Object'' else k) @ ''() { [native code] }'')"

fun prop_ToString :: "lookup \<Rightarrow> error + string" where
  "prop_ToString Undefined = Inr ''undefined''"
| "prop_ToString (Own v) = ToString v"
| "prop_ToString (Inherited k) = Inr (native_text k)"

text \<open>\<^verbatim>\<open>Object.keys(value)\<close>: the own enumerable property names; \<^verbatim>\<open>null\<close> throws.\<close>

fun Object_keys :: "jsval \<Rightarrow> error + string list" where
  "Object_keys JNull = Inl TypeError"
| "Object_keys (JObj kvs) = Inr (map fst kvs)"
| "Object_keys (JArr xs) = Inr (map show_nat [0..<length xs])"
| "Object_keys (JStr s) = Inr (map show_nat [0..<length s])"
| "Object_keys (JBool b) = Inr []"
| "Object_keys (JNum n) = Inr []"
| "Object_keys (JInfinity b) = Inr []"

text \<open>\<^verbatim>\<open>xs.map(f)\<close> where \<^verbatim>\<open>f\<close> may throw: the first exception ends the loop.\<close>

fun map_throwing :: "('a \<Rightarrow> error + 'b) \<Rightarrow> 'a list \<Rightarrow> error + 'b list" where
  "map_throwing f [] = Inr []"
| "map_throwing f (x # xs) =
     (case f x of
        Inl e \<Rightarrow> Inl e
      | Inr y \<Rightarrow> (case map_throwing f xs of Inl e \<Rightarrow> Inl e | Inr ys \<Rightarrow> Inr (y # ys)))"

text \<open>\<^verbatim>\<open>parts.join(sep)\<close>.\<close>

fun join :: "string \<Rightarrow> string list \<Rightarrow> string" where
  "join sep [] = []"
| "join sep [x] = x"
| "join sep (x # y # ys) = x @ sep @ join sep (y # ys)"

section \<open>The CSV projection (\<^verbatim>\<open>saveAsCSV\<close>)\<close>

text \<open>\<^verbatim>\<open>allKeys.add(key)\<close> on a \<^verbatim>\<open>Set\<close>, kept in insertion order.\<close>

definition Set_add :: "string list \<Rightarrow> string \<Rightarrow> string list" where
  "Set_add s k = (if k \<in> set s then s else s @ [k])"

text \<open>
  The two nested \<^verbatim>\<open>forEach\<close> loops that collect the keys of every response.
\<close>

fun collect_keys :: "string list \<Rightarrow> jsval list \<Rightarrow> error + string list" where
  "collect_keys allKeys [] = Inr allKeys"
| "collect_keys allKeys (response # responses) =
     (case Object_keys response of
        Inl e \<Rightarrow> Inl e
      | Inr ks \<Rightarrow> collect_keys (foldl Set_add allKeys ks) responses)"

text \<open>\<^verbatim>\<open>headers.map(header => `"${header}"`).join(',')\<close>\<close>

definition header_field :: "string \<Rightarrow> string" where
  "header_field header = CHR 0x22 # header @ [CHR 0x22]"

definition csvHeader :: "string list \<Rightarrow> string" where
  "csvHeader headers = join '','' (map header_field headers)"

text \<open>\<^verbatim>\<open>s.replace(/"/g, '""')\<close>\<close>

fun double_quotes :: "string \<Rightarrow> string" where
  "double_quotes [] = []"
| "double_quotes (c # cs) =
     (if c = CHR 0x22 then CHR 0x22 # CHR 0x22 # double_quotes cs else c # double_quotes cs)"

text \<open>
  One field of a data row: \<^verbatim>\<open>value = response[header] || ''\<close>, then
  \<^verbatim>\<open>`"${String(value).replace(/"/g, '""')}"`\<close>.
\<close>

definition csv_field :: "jsval \<Rightarrow> string \<Rightarrow> error + string" where
  "csv_field response header =
     (case get_prop response header of
        Inl e \<Rightarrow> Inl e
      | Inr p \<Rightarrow>
          (case (if prop_truthy p then prop_ToString p else Inr []) of
             Inl e \<Rightarrow> Inl e
           | Inr s \<Rightarrow> Inr (CHR 0x22 # double_quotes s @ [CHR 0x22])))"

definition csv_row :: "string list \<Rightarrow> jsval \<Rightarrow> error + string" where
  "csv_row headers response =
     (case map_throwing (csv_field response) headers of
        Inl e \<Rightarrow> Inl e
      | Inr fields \<Rightarrow> Inr (join '','' fields))"

text \<open>\<^verbatim>\<open>Array.from(allKeys).sort()\<close>: the default sort orders strings by code unit.\<close>

definition csv_headers :: "jsval list \<Rightarrow> error + string list" where
  "csv_headers responses =
     (case collect_keys [] responses of Inl e \<Rightarrow> Inl e | Inr allKeys \<Rightarrow> Inr (sort allKeys))"

text \<open>
  The text \<^verbatim>\<open>saveAsCSV\<close> computes for a non-empty list: the header line and the data
  rows, joined by newlines.
\<close>

definition csvContent :: "jsval list \<Rightarrow> error + string" where
  "csvContent responses =
     (case csv_headers responses of
        Inl e \<Rightarrow> Inl e
      | Inr headers \<Rightarrow>
          (case map_throwing (csv_row headers) responses of
             Inl e \<Rightarrow> Inl e
           | Inr csvRows \<Rightarrow> Inr (join [CHR 0x0A] (csvHeader headers # csvRows))))"

section \<open>The JSON text of the store\<close>

text \<open>
  The store is a text file: \<^verbatim>\<open>JSON.stringify(existingResponses, null, 2)\<close> writes it and
  \<^verbatim>\<open>JSON.parse(data)\<close> reads it. Both are written out here for the values of the model.
\<close>

subsection \<open>\<^verbatim>\<open>JSON.stringify(value, null, 2)\<close>\<close>

definition hex_digit :: "nat \<Rightarrow> char" where
  "hex_digit d = (if d < 10 then char_of (48 + d) else char_of (87 + d))"

text \<open>
  One character of a quoted string: the quote, the backslash and the control characters
  are escaped, control characters without a short escape as \<^verbatim>\<open>\u00XX\<close>.
\<close>

definition escape_char :: "char \<Rightarrow> string" where
  "escape_char c =
     (if c = CHR 0x22 then [CHR 0x5C, CHR 0x22]
      else if c = CHR 0x5C then [CHR 0x5C, CHR 0x5C]
      else if c = CHR 0x08 then [CHR 0x5C, CHR ''b'']
      else if c = CHR 0x0C then [CHR 0x5C, CHR ''f'']
      else if c = CHR 0x0A then [CHR 0x5C, CHR ''n'']
      else if c = CHR 0x0D then [CHR 0x5C, CHR ''r'']
      else if c = CHR 0x09 then [CHR 0x5C, CHR ''t'']
      else if (of_char c :: nat) < 32
        then [CHR 0x5C, CHR ''u'', CHR ''0'', CHR ''0'',
              hex_digit (of_char c div 16), hex_digit (of_char c mod 16)]
      else [c])"

definition quote :: "string \<Rightarrow> string" where
  "quote s = CHR 0x22 # concat (map escape_char s) @ [CHR 0x22]"

definition newline_indent :: "nat \<Rightarrow> string" where
  "newline_indent n = CHR 0x0A # replicate n CHR '' ''"

text \<open>
  The serialisation at indentation \<open>n\<close>, with a gap of two spaces: an empty array is
  \<^verbatim>\<open>[]\<close>, an empty object \<^verbatim>\<open>{}\<close>, and the others put each element or member on a line
  of its own. A number that is not finite is written as \<^verbatim>\<open>null\<close>.
\<close>

fun serialize :: "nat \<Rightarrow> jsval \<Rightarrow> string"
  and serialize_elements :: "nat \<Rightarrow> jsval list \<Rightarrow> string"
  and serialize_members :: "nat \<Rightarrow> (string \<times> jsval) list \<Rightarrow> string" where
  "serialize n JNull = ''null''"
| "serialize n (JBool b) = (if b then ''true'' else ''false'')"
| "serialize n (JNum i) = show_int i"
| "serialize n (JInfinity b) = ''null''"
| "serialize n (JStr s) = quote s"
| "serialize n (JArr []) = ''[]''"
| "serialize n (JArr (x # xs)) =
     ''['' @ newline_indent (n + 2) @ serialize_elements (n + 2) (x # xs)
       @ newline_indent n @ '']''"
| "serialize n (JObj []) = ''{}''"
| "serialize n (JObj (kv # kvs)) =
     ''{'' @ newline_indent (n + 2) @ serialize_members (n + 2) (kv # kvs)
       @ newline_indent n @ ''}''"
| "serialize_elements n [] = []"
| "serialize_elements n [x] = serialize n x"
| "serialize_elements n (x # y # ys) =
     serialize n x @ '','' @ newline_indent n @ serialize_elements n (y # ys)"
| "serialize_members n [] = []"
| "serialize_members n [(k, v)] = quote k @ '': '' @ serialize n v"
| "serialize_members n ((k, v) # kv # kvs) =
     quote k @ '': '' @ serialize n v @ '','' @ newline_indent n @ serialize_members n (kv # kvs)"

definition JSON_stringify :: "jsval \<Rightarrow> string" where
  "JSON_stringify v = serialize 0 v"

subsection \<open>\<^verbatim>\<open>JSON.parse(text)\<close>\<close>

definition is_ws :: "char \<Rightarrow> bool" where
  "is_ws c \<longleftrightarrow> c = CHR '' '' \<or> c = CHR 0x0A \<or> c = CHR 0x0D \<or> c = CHR 0x09"

definition skip_ws :: "string \<Rightarrow> string" where
  "skip_ws s = dropWhile is_ws s"

definition hex_val :: "char \<Rightarrow> nat option" where
  "hex_val c =
     (if CHR ''0'' \<le> c \<and> c \<le> CHR ''9'' then Some (of_char c - 48)
      else if CHR ''a'' \<le> c \<and> c \<le> CHR ''f'' then Some (of_char c - 87)
      else if CHR ''A'' \<le> c \<and> c \<le> CHR ''F'' then Some (of_char c - 55)
      else None)"

text \<open>
  The code unit of \<^verbatim>\<open>\uXXXX\<close>. One beyond the 8-bit characters of the model cannot be
  given a value here and is refused, although \<^verbatim>\<open>JSON.parse\<close> accepts it: a text with
  such an escape is outside the model (see \<open>within_model\<close> below).
\<close>

definition unicode_escape :: "char \<Rightarrow> char \<Rightarrow> char \<Rightarrow> char \<Rightarrow> char option" where
  "unicode_escape a b c d =
     (case (hex_val a, hex_val b, hex_val c, hex_val d) of
        (Some x, Some y, Some z, Some w) \<Rightarrow>
          (if x = 0 \<and> y = 0 then Some (char_of (16 * z + w)) else None)
      | _ \<Rightarrow> None)"

definition simple_escape :: "char \<Rightarrow> char option" where
  "simple_escape e =
     (if e = CHR 0x22 then Some (CHR 0x22)
      else if e = CHR 0x5C then Some (CHR 0x5C)
      else if e = CHR ''/'' then Some (CHR ''/'')
      else if e = CHR ''b'' then Some (CHR 0x08)
      else if e = CHR ''f'' then Some (CHR 0x0C)
      else if e = CHR ''n'' then Some (CHR 0x0A)
      else if e = CHR ''r'' then Some (CHR 0x0D)
      else if e = CHR ''t'' then Some (CHR 0x09)
      else None)"

definition cons_char :: "char \<Rightarrow> (string \<times> string) option \<Rightarrow> (string \<times> string) option" where
  "cons_char c r = (case r of None \<Rightarrow> None | Some (s, rest) \<Rightarrow> Some (c # s, rest))"

text \<open>
  The characters of a string up to its closing quote, and the text after it. A raw
  control character is a syntax error.
\<close>

fun parse_chars :: "string \<Rightarrow> (string \<times> string) option" where
  "parse_chars [] = None"
| "parse_chars (c # cs) =
     (if c = CHR 0x22 then Some ([], cs)
      else if c = CHR 0x5C then
        (case cs of
           [] \<Rightarrow> None
         | e # r \<Rightarrow>
             (if e = CHR ''u'' then
                (case r of
                   a # b # c' # d # r' \<Rightarrow>
                     (case unicode_escape a b c' d of
                        None \<Rightarrow> None
                      | Some ch \<Rightarrow> cons_char ch (parse_chars r'))
                 | _ \<Rightarrow> None)
              else (case simple_escape e of
                      None \<Rightarrow> None
                    | Some ch \<Rightarrow> cons_char ch (parse_chars r))))
      else if (of_char c :: nat) < 32 then None
      else cons_char c (parse_chars cs))"

text \<open>
  A number: an optional minus sign and an integer without a leading zero. A number with a
  fraction or an exponent cannot be given a value among the integers of the model and is
  refused, although \<^verbatim>\<open>JSON.parse\<close> accepts it: a text with such a number is outside the
  model (see \<open>within_model\<close> below).
\<close>

definition parse_digits :: "string \<Rightarrow> (nat \<times> string) option" where
  "parse_digits s =
     (let ds = takeWhile is_digit s; rest = dropWhile is_digit s in
      if ds = [] \<or> (length ds > 1 \<and> hd ds = CHR ''0'') then None
      else (case rest of
              [] \<Rightarrow> Some (read_nat ds, rest)
            | c # _ \<Rightarrow> if c = CHR ''.'' \<or> c = CHR ''e'' \<or> c = CHR ''E'' then None
                       else Some (read_nat ds, rest)))"

definition parse_number :: "string \<Rightarrow> (int \<times> string) option" where
  "parse_number s =
     (case s of
        [] \<Rightarrow> None
      | c # cs \<Rightarrow>
          if c = CHR ''-''
          then (case parse_digits cs of None \<Rightarrow> None | Some (n, rest) \<Rightarrow> Some (- int n, rest))
          else (case parse_digits s of None \<Rightarrow> None | Some (n, rest) \<Rightarrow> Some (int n, rest)))"

text \<open>
  \<^verbatim>\<open>JSON.parse\<close> defines the members of an object one after the other, so a repeated key
  keeps its first place and its last value.
\<close>

definition object_of :: "(string \<times> jsval) list \<Rightarrow> jsval" where
  "object_of members = JObj (foldl (\<lambda>kvs (k, v). assign kvs k v) [] members)"

definition strip_prefix :: "string \<Rightarrow> string \<Rightarrow> string option" where
  "strip_prefix p s = (if take (length p) s = p then Some (drop (length p) s) else None)"

text \<open>
  The recursive descent over the text. The first argument bounds the number of nested
  calls; every call consumes a character, so the length of the text is enough.
\<close>

fun parse_value :: "nat \<Rightarrow> string \<Rightarrow> (jsval \<times> string) option"
  and parse_elements :: "nat \<Rightarrow> string \<Rightarrow> (jsval list \<times> string) option"
  and parse_members :: "nat \<Rightarrow> string \<Rightarrow> ((string \<times> jsval) list \<times> string) option" where
  "parse_value 0 s = None"
| "parse_value (Suc n) s =
     (case skip_ws s of
        [] \<Rightarrow> None
      | c # cs \<Rightarrow>
          if c = CHR ''n'' then map_option (Pair JNull) (strip_prefix ''ull'' cs)
          else if c = CHR ''t'' then map_option (Pair (JBool True)) (strip_prefix ''rue'' cs)
          else if c = CHR ''f'' then map_option (Pair (JBool False)) (strip_prefix ''alse'' cs)
          else if c = CHR 0x22 then
            (case parse_chars cs of None \<Rightarrow> None | Some (str, rest) \<Rightarrow> Some (JStr str, rest))
          else if c = CHR ''['' then
            (case skip_ws cs of
               [] \<Rightarrow> None
             | d # ds \<Rightarrow>
                 if d = CHR '']'' then Some (JArr [], ds)
                 else (case parse_elements n cs of
                         None \<Rightarrow> None
                       | Some (xs, rest) \<Rightarrow> Some (JArr xs, rest)))
          else if c = CHR ''{'' then
            (case skip_ws cs of
               [] \<Rightarrow> None
             | d # ds \<Rightarrow>
                 if d = CHR ''}'' then Some (JObj [], ds)
                 else (case parse_members n cs of
                         None \<Rightarrow> None
                       | Some (kvs, rest) \<Rightarrow> Some (object_of kvs, rest)))
          else (case parse_number (c # cs) of
                  None \<Rightarrow> None
                | Some (i, rest) \<Rightarrow> Some (JNum i, rest)))"
| "parse_elements 0 s = None"
| "parse_elements (Suc n) s =
     (case parse_value n s of
        None \<Rightarrow> None
      | Some (x, rest) \<Rightarrow>
          (case skip_ws rest of
             [] \<Rightarrow> None
           | c # cs \<Rightarrow>
               if c = CHR '','' then
                 (case parse_elements n cs of
                    None \<Rightarrow> None
                  | Some (xs, rest') \<Rightarrow> Some (x # xs, rest'))
               else if c = CHR '']'' then Some ([x], cs)
               else None))"
| "parse_members 0 s = None"
| "parse_members (Suc n) s =
     (case skip_ws s of
        [] \<Rightarrow> None
      | q # cs \<Rightarrow>
          if q \<noteq> CHR 0x22 then None
          else
            (case parse_chars cs of
               None \<Rightarrow> None
             | Some (k, rest) \<Rightarrow>
                 (case skip_ws rest of
                    [] \<Rightarrow> None
                  | colon # rest1 \<Rightarrow>
                      if colon \<noteq> CHR '':'' then None
                      else
                        (case parse_value n rest1 of
                           None \<Rightarrow> None
                         | Some (v, rest2) \<Rightarrow>
                             (case skip_ws rest2 of
                                [] \<Rightarrow> None
                              | c # rest3 \<Rightarrow>
                                  if c = CHR '','' then
                                    (case parse_members n rest3 of
                                       None \<Rightarrow> None
                                     | Some (kvs, rest4) \<Rightarrow> Some ((k, v) # kvs, rest4))
                                  else if c = CHR ''}'' then Some ([(k, v)], rest3)
                                  else None)))))"

text \<open>The whole text is one value, with white space around it.\<close>

definition JSON_parse :: "string \<Rightarrow> error + jsval" where
  "JSON_parse txt =
     (case parse_value (Suc (length txt)) txt of
        None \<Rightarrow> Inl SyntaxError
      | Some (v, rest) \<Rightarrow> if skip_ws rest = [] then Inr v else Inl SyntaxError)"

text \<open>
  The texts of the model. The parser above follows the grammar of JSON except at the two
  places named there, and it reads an integer exactly where \<^verbatim>\<open>JSON.parse\<close> rounds it to
  a double. So it stands for \<^verbatim>\<open>JSON.parse\<close> on the texts in which, outside of strings, no
  digit is followed by \<^verbatim>\<open>.\<close>, \<^verbatim>\<open>e\<close> or \<^verbatim>\<open>E\<close> and no more than fifteen digits stand in a
  row (an integer of fifteen digits is a double), and in which, inside of strings, every
  \<^verbatim>\<open>\u\<close> is followed by \<^verbatim>\<open>00\<close>. On these texts a syntax error of the parser is a syntax
  error of \<^verbatim>\<open>JSON.parse\<close>, and a value of the parser is the value of \<^verbatim>\<open>JSON.parse\<close>; on
  the others the parser says nothing, and the properties below that depend on a syntax
  error or on the numbers of a given text are stated for the texts of the model. A text
  \<^verbatim>\<open>JSON.stringify\<close> wrote for a value of the model always parses (see
  \<open>JSON_parse_stringify\<close> below).

  The scan goes through the text once; its first argument says whether the position is
  inside a string, which a double quote that is not escaped opens and closes.
\<close>

fun model_text :: "bool \<Rightarrow> string \<Rightarrow> bool" where
  "model_text in_string [] = True"
| "model_text False (c # cs) =
     (if c = CHR 0x22 then model_text True cs
      else length (takeWhile is_digit (c # cs)) \<le> 15
        \<and> \<not> (is_digit c \<and> (case cs of
                              [] \<Rightarrow> False
                            | d # ds \<Rightarrow> d = CHR ''.'' \<or> d = CHR ''e'' \<or> d = CHR ''E''))
        \<and> model_text False cs)"
| "model_text True [c] = True"
| "model_text True (c # e # cs) =
     (if c = CHR 0x22 then model_text False (e # cs)
      else if c = CHR 0x5C then (e = CHR ''u'' \<longrightarrow> take 2 cs = ''00'') \<and> model_text True cs
      else model_text True (e # cs))"

definition within_model :: "string \<Rightarrow> bool" where
  "within_model txt = model_text False txt"

subsection \<open>JSON data\<close>

text \<open>
  A list of pairs stands for an object when its keys are distinct, at every level. A value
  is JSON data when, moreover, all its numbers are finite: these are the values
  \<^verbatim>\<open>JSON.stringify\<close> writes in full, and the ones \<^verbatim>\<open>JSON.parse\<close> builds from a text
  whose number literals are within the range of the doubles.
\<close>

fun distinct_keys :: "jsval \<Rightarrow> bool"
  and distinct_keys_elements :: "jsval list \<Rightarrow> bool"
  and distinct_keys_members :: "(string \<times> jsval) list \<Rightarrow> bool" where
  "distinct_keys JNull = True"
| "distinct_keys (JBool b) = True"
| "distinct_keys (JNum i) = True"
| "distinct_keys (JInfinity b) = True"
| "distinct_keys (JStr s) = True"
| "distinct_keys (JArr xs) = distinct_keys_elements xs"
| "distinct_keys (JObj kvs) = (distinct (map fst kvs) \<and> distinct_keys_members kvs)"
| "distinct_keys_elements [] = True"
| "distinct_keys_elements (x # xs) = (distinct_keys x \<and> distinct_keys_elements xs)"
| "distinct_keys_members [] = True"
| "distinct_keys_members ((k, v) # kvs) = (distinct_keys v \<and> distinct_keys_members kvs)"

fun well_formed :: "jsval \<Rightarrow> bool"
  and well_formed_elements :: "jsval list \<Rightarrow> bool"
  and well_formed_members :: "(string \<times> jsval) list \<Rightarrow> bool" where
  "well_formed JNull = True"
| "well_formed (JBool b) = True"
| "well_formed (JNum i) = True"
| "well_formed (JInfinity b) = False"
| "well_formed (JStr s) = True"
| "well_formed (JArr xs) = well_formed_elements xs"
| "well_formed (JObj kvs) = (distinct (map fst kvs) \<and> well_formed_members kvs)"
| "well_formed_elements [] = True"
| "well_formed_elements (x # xs) = (well_formed x \<and> well_formed_elements xs)"
| "well_formed_members [] = True"
| "well_formed_members ((k, v) # kvs) = (well_formed v \<and> well_formed_members kvs)"

text \<open>
  What the store keeps of a value: \<^verbatim>\<open>JSON.stringify\<close> writes \<^verbatim>\<open>null\<close> for a number that
  is not finite, and everything else in full.
\<close>

fun stored :: "jsval \<Rightarrow> jsval"
  and stored_elements :: "jsval list \<Rightarrow> jsval list"
  and stored_members :: "(string \<times> jsval) list \<Rightarrow> (string \<times> jsval) list" where
  "stored JNull = JNull"
| "stored (JBool b) = JBool b"
| "stored (JNum i) = JNum i"
| "stored (JInfinity b) = JNull"
| "stored (JStr s) = JStr s"
| "stored (JArr xs) = JArr (stored_elements xs)"
| "stored (JObj kvs) = JObj (stored_members kvs)"
| "stored_elements [] = []"
| "stored_elements (x # xs) = stored x # stored_elements xs"
| "stored_members [] = []"
| "stored_members ((k, v) # kvs) = (k, stored v) # stored_members kvs"

text \<open>The number of nested calls the parser makes on the text of a value.\<close>

fun nesting :: "jsval \<Rightarrow> nat"
  and nesting_elements :: "jsval list \<Rightarrow> nat"
  and nesting_members :: "(string \<times> jsval) list \<Rightarrow> nat" where
  "nesting JNull = 1"
| "nesting (JBool b) = 1"
| "nesting (JNum i) = 1"
| "nesting (JInfinity b) = 1"
| "nesting (JStr s) = 1"
| "nesting (JArr xs) = Suc (nesting_elements xs)"
| "nesting (JObj kvs) = Suc (nesting_members kvs)"
| "nesting_elements [] = 0"
| "nesting_elements (x # xs) = Suc (max (nesting x) (nesting_elements xs))"
| "nesting_members [] = 0"
| "nesting_members ((k, v) # kvs) = Suc (max (nesting v) (nesting_members kvs))"

section \<open>The files under \<^verbatim>\<open>responses/\<close>\<close>

datatype path = survey_responses_json | survey_responses_csv

text \<open>
  The \<^verbatim>\<open>responses\<close> directory, when it exists, holds the text of each of the two files
  that exists. \<open>writable\<close> says whether the process may create the directory and write
  files: a disk or permission failure is a write under \<open>writable = False\<close>.
\<close>

record fs =
  responses_dir :: "(path \<Rightarrow> string option) option"
  writable :: bool

text \<open>\<^verbatim>\<open>fs.mkdir(responsesDir, { recursive: true })\<close>\<close>

definition mkdir :: "fs \<Rightarrow> error + fs" where
  "mkdir s =
     (if writable s
      then Inr (case responses_dir s of
                  None \<Rightarrow> s\<lparr>responses_dir := Some (\<lambda>p. None)\<rparr>
                | Some d \<Rightarrow> s)
      else Inl EACCES)"

text \<open>\<^verbatim>\<open>fs.readFile(file, 'utf8')\<close>\<close>

definition readFile :: "fs \<Rightarrow> path \<Rightarrow> error + string" where
  "readFile s p =
     (case responses_dir s of
        None \<Rightarrow> Inl ENOENT
      | Some d \<Rightarrow> (case d p of None \<Rightarrow> Inl ENOENT | Some txt \<Rightarrow> Inr txt))"

text \<open>\<^verbatim>\<open>fs.writeFile(file, text)\<close>: the whole content is replaced.\<close>

definition writeFile :: "fs \<Rightarrow> path \<Rightarrow> string \<Rightarrow> error + fs" where
  "writeFile s p txt =
     (case responses_dir s of
        None \<Rightarrow> Inl ENOENT
      | Some d \<Rightarrow>
          if writable s then Inr (s\<lparr>responses_dir := Some (d(p := Some txt))\<rparr>)
          else Inl EACCES)"

text \<open>
  \<^verbatim>\<open>saveAsCSV(responses)\<close>: nothing is written for an empty list; an exception of the
  projection leaves the files as they were.
\<close>

definition saveAsCSV :: "jsval list \<Rightarrow> fs \<Rightarrow> error + fs" where
  "saveAsCSV responses s =
     (if length responses = 0 then Inr s
      else (case csvContent responses of
              Inl e \<Rightarrow> Inl e
            | Inr txt \<Rightarrow> writeFile s survey_responses_csv txt))"

section \<open>The handlers\<close>

text \<open>\<^verbatim>\<open>res.status(code).json(body)\<close>\<close>

datatype response = Response (status: nat) (body: "(string \<times> jsval) list")

text \<open>
  The members of a response body: \<^verbatim>\<open>JSON.stringify\<close> leaves out a member whose value is
  \<^verbatim>\<open>undefined\<close> or a function.
\<close>

fun json_fields :: "(string \<times> lookup) list \<Rightarrow> (string \<times> jsval) list" where
  "json_fields [] = []"
| "json_fields ((k, Own v) # members) = (k, v) # json_fields members"
| "json_fields ((k, p) # members) = json_fields members"

subsection \<open>\<^verbatim>\<open>POST /api/submit-survey\<close>\<close>

text \<open>
  What the handler reads from its environment: \<^verbatim>\<open>new Date().toISOString()\<close>,
  \<^verbatim>\<open>Date.now()\<close> and \<^verbatim>\<open>Math.random().toString(36)\<close>.
\<close>

record env =
  now_iso :: string
  now_ms :: int
  random36 :: string

text \<open>\<^verbatim>\<open>Date.now() + '_' + Math.random().toString(36).substr(2, 9)\<close>\<close>

definition new_id :: "env \<Rightarrow> string" where
  "new_id e = show_int (now_ms e) @ ''_'' @ take 9 (drop 2 (random36 e))"

text \<open>The \<^verbatim>\<open>catch (error)\<close> branch of the handler.\<close>

definition failed_to_save :: "error \<Rightarrow> response" where
  "failed_to_save e =
     Response 500 [(''error'', JStr ''Failed to save survey response''),
                   (''details'', JStr (message e))]"

text \<open>
  \<^verbatim>\<open>if (!surveyData.timestamp) surveyData.timestamp = new Date().toISOString();\<close>
  \<^verbatim>\<open>surveyData.id = ...\<close>
\<close>

definition enrich :: "env \<Rightarrow> jsval \<Rightarrow> error + jsval" where
  "enrich e surveyData =
     (case get_prop surveyData ''timestamp'' of
        Inl err \<Rightarrow> Inl err
      | Inr ts \<Rightarrow>
          (case (if \<not> prop_truthy ts then set_prop surveyData ''timestamp'' (JStr (now_iso e))
                 else Inr surveyData) of
             Inl err \<Rightarrow> Inl err
           | Inr stamped \<Rightarrow> set_prop stamped ''id'' (JStr (new_id e))))"

text \<open>\<^verbatim>\<open>try { await fs.access(responsesDir) } catch { await fs.mkdir(...) }\<close>\<close>

definition ensure_dir :: "fs \<Rightarrow> error + fs" where
  "ensure_dir s = (case responses_dir s of None \<Rightarrow> mkdir s | Some d \<Rightarrow> Inr s)"

text \<open>
  The inner \<^verbatim>\<open>try\<close>: any exception of \<^verbatim>\<open>readFile\<close> or \<^verbatim>\<open>JSON.parse\<close> leaves
  \<^verbatim>\<open>existingResponses = []\<close>; a text that parses gives whatever value it denotes.
\<close>

definition read_existing :: "fs \<Rightarrow> jsval" where
  "read_existing s =
     (case readFile s survey_responses_json of
        Inl err \<Rightarrow> JArr []
      | Inr data \<Rightarrow> (case JSON_parse data of Inl err \<Rightarrow> JArr [] | Inr v \<Rightarrow> v))"

text \<open>\<^verbatim>\<open>existingResponses.push(surveyData)\<close>: only an array has \<^verbatim>\<open>push\<close>.\<close>

fun push :: "jsval \<Rightarrow> jsval \<Rightarrow> error + jsval list" where
  "push (JArr xs) x = Inr (xs @ [x])"
| "push v x = Inl TypeError"

text \<open>
  The handler returns its response and the files as it leaves them: an exception after
  the JSON file was written does not undo the write.
\<close>

definition submit_survey :: "env \<Rightarrow> jsval \<Rightarrow> fs \<Rightarrow> response \<times> fs" where
  "submit_survey e surveyData s =
     (case get_prop surveyData ''userType'' of
        Inl err \<Rightarrow> (failed_to_save err, s)
      | Inr userType \<Rightarrow>
          if \<not> prop_truthy userType
          then (Response 400 [(''error'', JStr ''User type is required'')], s)
          else
            (case enrich e surveyData of
               Inl err \<Rightarrow> (failed_to_save err, s)
             | Inr record \<Rightarrow>
                 (case ensure_dir s of
                    Inl err \<Rightarrow> (failed_to_save err, s)
                  | Inr s1 \<Rightarrow>
                      (case push (read_existing s1) record of
                         Inl err \<Rightarrow> (failed_to_save err, s1)
                       | Inr existingResponses \<Rightarrow>
                           (case writeFile s1 survey_responses_json
                                   (JSON_stringify (JArr existingResponses)) of
                              Inl err \<Rightarrow> (failed_to_save err, s1)
                            | Inr s2 \<Rightarrow>
                                (case saveAsCSV existingResponses s2 of
                                   Inl err \<Rightarrow> (failed_to_save err, s2)
                                 | Inr s3 \<Rightarrow>
                                     (case get_prop record ''id'' of
                                        Inl err \<Rightarrow> (failed_to_save err, s3)
                                      | Inr responseId \<Rightarrow>
                                          (Response 200
                                             (json_fields
                                                [(''message'', Own (JStr ''Survey submitted successfully'')),
                                                 (''responseId'', responseId),
                                                 (''totalResponses'',
                                                    Own (JNum (int (length existingResponses))))]),
                                           s3))))))))"

subsection \<open>\<^verbatim>\<open>GET /api/responses\<close>\<close>

definition no_responses_found :: "error \<Rightarrow> response" where
  "no_responses_found e =
     Response 404 [(''error'', JStr ''No responses found''), (''details'', JStr (message e))]"

definition get_responses :: "fs \<Rightarrow> response" where
  "get_responses s =
     (case readFile s survey_responses_json of
        Inl err \<Rightarrow> no_responses_found err
      | Inr data \<Rightarrow>
          (case JSON_parse data of
             Inl err \<Rightarrow> no_responses_found err
           | Inr responses \<Rightarrow>
               (case get_prop responses ''length'' of
                  Inl err \<Rightarrow> no_responses_found err
                | Inr count \<Rightarrow>
                    Response 200
                      (json_fields
                         [(''success'', Own (JBool True)), (''count'', count),
                          (''data'', Own responses)]))))"

subsection \<open>\<^verbatim>\<open>GET /api/stats\<close>\<close>

text \<open>
  \<^verbatim>\<open>(dateCount[date] || 0) + 1\<close>: one for a key that is not there, one more than a number,
  two for \<^verbatim>\<open>true\<close>; on anything else \<^verbatim>\<open>+\<close> concatenates strings.
\<close>

definition plus_one :: "lookup \<Rightarrow> error + jsval" where
  "plus_one p =
     (if \<not> prop_truthy p then Inr (JNum 1)
      else (case p of
              Own (JNum n) \<Rightarrow> Inr (JNum (n + 1))
            | Own (JInfinity b) \<Rightarrow> Inr (JInfinity b)
            | Own (JBool b) \<Rightarrow> Inr (JNum 2)
            | _ \<Rightarrow> (case prop_ToString p of Inl e \<Rightarrow> Inl e | Inr s \<Rightarrow> Inr (JStr (s @ ''1'')))))"

text \<open>
  \<^verbatim>\<open>new Date(value)\<close> first converts an object to a primitive: an array or a plain object
  becomes the string \<^verbatim>\<open>String(value)\<close> gives, and the conversion throws a TypeError where
  \<^verbatim>\<open>String(value)\<close> does (\<^verbatim>\<open>valueOf\<close> never gives a primitive for a JSON value, so
  \<^verbatim>\<open>toString\<close> decides); an inherited member becomes its text. \<^verbatim>\<open>undefined\<close>,
  \<^verbatim>\<open>null\<close>, booleans, numbers and strings are primitives already.
\<close>

fun ToPrimitive :: "lookup \<Rightarrow> error + lookup" where
  "ToPrimitive (Own (JArr xs)) =
     (case ToString (JArr xs) of Inl e \<Rightarrow> Inl e | Inr s \<Rightarrow> Inr (Own (JStr s)))"
| "ToPrimitive (Own (JObj kvs)) =
     (case ToString (JObj kvs) of Inl e \<Rightarrow> Inl e | Inr s \<Rightarrow> Inr (Own (JStr s)))"
| "ToPrimitive (Inherited k) = Inr (Own (JStr (native_text k)))"
| "ToPrimitive p = Inr p"

text \<open>
  \<^verbatim>\<open>getResponsesByDate\<close>. \<open>toDateString\<close> stands for \<^verbatim>\<open>new Date(p).toDateString()\<close> on
  a primitive \<open>p\<close>: the calendar day of the date in the local time zone of the process
  (or \<^verbatim>\<open>Invalid Date\<close>). An exception of \<^verbatim>\<open>new Date(response.timestamp)\<close> ends the
  loop.
\<close>

fun count_dates :: "(lookup \<Rightarrow> string) \<Rightarrow> (string \<times> jsval) list \<Rightarrow> jsval list
    \<Rightarrow> error + (string \<times> jsval) list" where
  "count_dates toDateString dateCount [] = Inr dateCount"
| "count_dates toDateString dateCount (response # responses) =
     (case get_prop response ''timestamp'' of
        Inl e \<Rightarrow> Inl e
      | Inr ts \<Rightarrow>
          (case ToPrimitive ts of
             Inl e \<Rightarrow> Inl e
           | Inr p \<Rightarrow>
               (case get_prop (JObj dateCount) (toDateString p) of
                  Inl e \<Rightarrow> Inl e
                | Inr old \<Rightarrow>
                    (case plus_one old of
                       Inl e \<Rightarrow> Inl e
                     | Inr n \<Rightarrow>
                         count_dates toDateString (assign dateCount (toDateString p) n)
                           responses))))"

definition getResponsesByDate :: "(lookup \<Rightarrow> string) \<Rightarrow> jsval list \<Rightarrow> error + jsval" where
  "getResponsesByDate toDateString responses =
     (case count_dates toDateString [] responses of
        Inl e \<Rightarrow> Inl e
      | Inr dateCount \<Rightarrow> Inr (JObj dateCount))"

text \<open>\<^verbatim>\<open>responses.filter(r => r.userType === t).length\<close>\<close>

fun count_userType :: "string \<Rightarrow> jsval list \<Rightarrow> error + nat" where
  "count_userType t [] = Inr 0"
| "count_userType t (r # rs) =
     (case get_prop r ''userType'' of
        Inl e \<Rightarrow> Inl e
      | Inr u \<Rightarrow>
          (case count_userType t rs of
             Inl e \<Rightarrow> Inl e
           | Inr n \<Rightarrow> Inr (if u = Own (JStr t) then Suc n else n)))"

text \<open>
  \<^verbatim>\<open>responses.length > 0 ? responses[responses.length - 1].timestamp : null\<close>
\<close>

definition latestResponse :: "jsval list \<Rightarrow> error + lookup" where
  "latestResponse responses =
     (if length responses > 0 then get_prop (responses ! (length responses - 1)) ''timestamp''
      else Inr (Own JNull))"

text \<open>The \<^verbatim>\<open>stats\<close> object; \<^verbatim>\<open>filter\<close> exists on arrays only.\<close>

definition stats :: "(lookup \<Rightarrow> string) \<Rightarrow> jsval \<Rightarrow> error + jsval" where
  "stats toDateString responses =
     (case get_prop responses ''length'' of
        Inl e \<Rightarrow> Inl e
      | Inr totalResponses \<Rightarrow>
          (case responses of
             JArr rs \<Rightarrow>
               (case count_userType ''stakeholder'' rs of
                  Inl e \<Rightarrow> Inl e
                | Inr stakeholders \<Rightarrow>
                    (case count_userType ''participant'' rs of
                       Inl e \<Rightarrow> Inl e
                     | Inr participants \<Rightarrow>
                         (case getResponsesByDate toDateString rs of
                            Inl e \<Rightarrow> Inl e
                          | Inr byDate \<Rightarrow>
                              (case latestResponse rs of
                                 Inl e \<Rightarrow> Inl e
                               | Inr latest \<Rightarrow>
                                   Inr (JObj (json_fields
                                     [(''totalResponses'', totalResponses),
                                      (''stakeholderResponses'', Own (JNum (int stakeholders))),
                                      (''participantResponses'', Own (JNum (int participants))),
                                      (''responsesByDate'', Own byDate),
                                      (''latestResponse'', latest)]))))))
           | _ \<Rightarrow> Inl TypeError))"

definition get_stats :: "(lookup \<Rightarrow> string) \<Rightarrow> fs \<Rightarrow> response" where
  "get_stats toDateString s =
     (case readFile s survey_responses_json of
        Inl err \<Rightarrow> no_responses_found err
      | Inr data \<Rightarrow>
          (case JSON_parse data of
             Inl err \<Rightarrow> no_responses_found err
           | Inr responses \<Rightarrow>
               (case stats toDateString responses of
                  Inl err \<Rightarrow> no_responses_found err
                | Inr st \<Rightarrow> Response 200 [(''success'', JBool True), (''data'', st)])))"

section \<open>Notions used to state the properties\<close>

subsection \<open>Submissions\<close>

text \<open>A payload passes the validation of the handler when its \<^verbatim>\<open>userType\<close> is truthy.\<close>

definition accepted :: "(string \<times> jsval) list \<Rightarrow> bool" where
  "accepted payload \<longleftrightarrow> (case map_of payload ''userType'' of Some v \<Rightarrow> truthy v | None \<Rightarrow> False)"

text \<open>The timestamp of a record, as \<^verbatim>\<open>response.timestamp\<close> reads it.\<close>

definition timestamp_of :: "(string \<times> jsval) list \<Rightarrow> lookup" where
  "timestamp_of r = (case map_of r ''timestamp'' of Some v \<Rightarrow> Own v | None \<Rightarrow> Undefined)"

text \<open>
  A timestamp that \<^verbatim>\<open>new Date\<close> accepts, and the calendar-day string of a record whose
  timestamp it accepts.
\<close>

definition convertible :: "lookup \<Rightarrow> bool" where
  "convertible p \<longleftrightarrow> (case ToPrimitive p of Inl e \<Rightarrow> False | Inr q \<Rightarrow> True)"

definition day_of :: "(lookup \<Rightarrow> string) \<Rightarrow> (string \<times> jsval) list \<Rightarrow> string" where
  "day_of toDateString r =
     (case ToPrimitive (timestamp_of r) of Inl e \<Rightarrow> [] | Inr p \<Rightarrow> toDateString p)"

text \<open>
  The record the handler stores for a payload: the payload, with \<^verbatim>\<open>timestamp\<close> set to the
  current instant unless it has a truthy one, and with \<^verbatim>\<open>id\<close> set to the new id.
\<close>

definition enriched :: "env \<Rightarrow> (string \<times> jsval) list \<Rightarrow> (string \<times> jsval) list" where
  "enriched e payload =
     assign (if prop_truthy (timestamp_of payload) then payload
             else assign payload ''timestamp'' (JStr (now_iso e)))
       ''id'' (JStr (new_id e))"

text \<open>The 200 response to a submission after which the store holds \<open>n\<close> records.\<close>

definition submitted :: "env \<Rightarrow> nat \<Rightarrow> response" where
  "submitted e n =
     Response 200
       [(''message'', JStr ''Survey submitted successfully''),
        (''responseId'', JStr (new_id e)),
        (''totalResponses'', JNum (int n))]"


fun confirmations :: "nat \<Rightarrow> (env \<times> (string \<times> jsval) list) list \<Rightarrow> response list" where
  "confirmations n [] = []"
| "confirmations n ((e, payload) # requests) = submitted e (Suc n) # confirmations (Suc n) requests"


subsection \<open>Quoted CSV fields\<close>

text \<open>
  Reading a quoted field as RFC 4180 writes it: the field is enclosed in double quotes,
  and between them a double quote stands for itself only when it is doubled. A field is
  a well-formed quoted field when it can be read.
\<close>

fun unquote_body :: "string \<Rightarrow> string option" where
  "unquote_body [] = Some []"
| "unquote_body (c # cs) =
     (if c = CHR 0x22 then
        (case cs of
           [] \<Rightarrow> None
         | d # ds \<Rightarrow> if d = CHR 0x22 then map_option ((#) CHR 0x22) (unquote_body ds) else None)
      else map_option ((#) c) (unquote_body cs))"

definition unquote :: "string \<Rightarrow> string option" where
  "unquote field =
     (case field of
        [] \<Rightarrow> None
      | q # rest \<Rightarrow>
          if q = CHR 0x22 \<and> rest \<noteq> [] \<and> last rest = CHR 0x22 then unquote_body (butlast rest)
          else None)"

definition well_formed_quoted :: "string \<Rightarrow> bool" where
  "well_formed_quoted field \<longleftrightarrow> unquote field \<noteq> None"

subsection \<open>Notions of the proofs\<close>

text \<open>A number ends where the text ends or goes on with something that is not part of a number.\<close>

definition number_end :: "string \<Rightarrow> bool" where
  "number_end rest \<longleftrightarrow> (case rest of [] \<Rightarrow> True | c # _ \<Rightarrow> \<not> is_digit c \<and> c \<noteq> CHR ''.'' \<and> c \<noteq> CHR ''e'' \<and> c \<noteq> CHR ''E'')"

text \<open>
  In the text of an array or an object a value is followed by a comma or by the line break
  before the closing bracket, and it starts with a character that is neither white space
  nor a closing bracket.
\<close>

definition value_end :: "string \<Rightarrow> bool" where
  "value_end rest \<longleftrightarrow> (case rest of [] \<Rightarrow> True | c # _ \<Rightarrow> c = CHR '','' \<or> c = CHR 0x0A)"

definition starts_value :: "string \<Rightarrow> bool" where
  "starts_value s \<longleftrightarrow> (case s of [] \<Rightarrow> False | c # _ \<Rightarrow> \<not> is_ws c \<and> c \<noteq> CHR '']'' \<and> c \<noteq> CHR ''}'')"

text \<open>
  The count \<^verbatim>\<open>dateCount\<close> holds for a day, and the invariant of the counting loop: every
  value of \<^verbatim>\<open>dateCount\<close> is a positive number.
\<close>

definition tally :: "(string \<times> jsval) list \<Rightarrow> string \<Rightarrow> int" where
  "tally dateCount d = (case map_of dateCount d of Some (JNum n) \<Rightarrow> n | _ \<Rightarrow> 0)"

definition tallies :: "(string \<times> jsval) list \<Rightarrow> bool" where
  "tallies dateCount \<longleftrightarrow> (\<forall>d v. map_of dateCount d = Some v \<longrightarrow> (\<exists>n. v = JNum n \<and> 0 < n))"

subsection \<open>Example data\<close>

text \<open>
  Two submissions, the instants and random strings their requests met, the records they
  store, and two states of the \<^verbatim>\<open>responses\<close> directory: no directory yet, and a directory
  whose JSON file holds a given text.
\<close>

definition env_a :: env where
  "env_a = \<lparr>now_iso = ''2025-03-01T10:00:00.000Z'', now_ms = 1740823200000,
             random36 = ''0.k3j9x0q2abc''\<rparr>"

definition env_b :: env where
  "env_b = \<lparr>now_iso = ''2025-03-01T10:05:00.000Z'', now_ms = 1740823500000,
             random36 = ''0.7hq2m9zzp41''\<rparr>"

definition payload_a :: "(string \<times> jsval) list" where
  "payload_a = [(''userType'', JStr ''participant''), (''event_question'', JStr ''Workshop'')]"

definition payload_b :: "(string \<times> jsval) list" where
  "payload_b = [(''userType'', JStr ''stakeholder''), (''rating_0'', JNum 4),
                (''timestamp'', JStr ''2025-02-27T09:00:00.000Z'')]"

definition record_a :: "(string \<times> jsval) list" where
  "record_a = [(''userType'', JStr ''participant''), (''event_question'', JStr ''Workshop''),
               (''timestamp'', JStr ''2025-03-01T10:00:00.000Z''),
               (''id'', JStr ''1740823200000_k3j9x0q2a'')]"

definition record_b :: "(string \<times> jsval) list" where
  "record_b = [(''userType'', JStr ''stakeholder''), (''rating_0'', JNum 4),
               (''timestamp'', JStr ''2025-02-27T09:00:00.000Z''),
               (''id'', JStr ''1740823500000_7hq2m9zzp'')]"

definition payload_c :: "(string \<times> jsval) list" where
  "payload_c = [(''userType'', JStr ''participant''), (''timestamp'', JInfinity False)]"

definition record_c :: "(string \<times> jsval) list" where
  "record_c = [(''userType'', JStr ''participant''), (''timestamp'', JInfinity False),
               (''id'', JStr ''1740823200000_k3j9x0q2a'')]"

definition no_files :: fs where
  "no_files = \<lparr>responses_dir = None, writable = True\<rparr>"

definition store_with :: "string \<Rightarrow> fs" where
  "store_with content =
     \<lparr>responses_dir = Some ((\<lambda>p. None)(survey_responses_json \<mapsto> content)), writable = True\<rparr>"

definition files_after_a :: fs where
  "files_after_a =
     \<lparr>responses_dir = Some ((\<lambda>p. None)
         (survey_responses_json \<mapsto> JSON_stringify (JArr [JObj record_a]),
          survey_responses_csv \<mapsto>
            ''\"event_question\",\"id\",\"timestamp\",\"userType\"'' @ [CHR 0x0A]
            @ ''\"Workshop\",\"1740823200000_k3j9x0q2a\",\"2025-03-01T10:00:00.000Z\",\"participant\"'')),
       writable = True\<rparr>"

section \<open>Reading back what \<^verbatim>\<open>JSON.stringify\<close> wrote\<close>

subsection \<open>Numbers\<close>

lemma of_char_digit_char: "d < 10 \<Longrightarrow> of_char (digit_char d) = (48 + d :: nat)"
  by (simp add: digit_char_def)

lemma is_digit_iff: "is_digit c \<longleftrightarrow> 48 \<le> (of_char c :: nat) \<and> (of_char c :: nat) \<le> 57"
  by (simp add: is_digit_def less_eq_char_def)

lemma is_digit_digit_char: "d < 10 \<Longrightarrow> is_digit (digit_char d)"
  by (simp add: is_digit_iff of_char_digit_char)

lemma digit_val_digit_char: "d < 10 \<Longrightarrow> digit_val (digit_char d) = d"
  by (simp add: digit_val_def of_char_digit_char)

lemma show_nat_digits: "list_all is_digit (show_nat n)"
  by (induction n rule: show_nat.induct) (subst show_nat.simps, simp add: is_digit_digit_char)

lemma show_nat_nonempty: "show_nat n \<noteq> []"
  by (subst show_nat.simps) simp

lemma read_nat_snoc: "read_nat (ds @ [c]) = 10 * read_nat ds + digit_val c"
  by (simp add: read_nat_def)

lemma read_show_nat: "read_nat (show_nat n) = n"
proof (induction n rule: show_nat.induct)
  case (1 n)
  show ?case
  proof (cases "n < 10")
    case True
    then show ?thesis by (subst show_nat.simps) (simp add: read_nat_def digit_val_digit_char)
  next
    case False
    with 1 show ?thesis
      by (subst show_nat.simps) (simp add: read_nat_snoc digit_val_digit_char)
  qed
qed

lemma char_eq_nat: "c = d \<longleftrightarrow> (of_char c :: nat) = of_char d"
  by simp

lemma digit_char_eq_zero: "d < 10 \<Longrightarrow> digit_char d = CHR ''0'' \<longleftrightarrow> d = 0"
  by (simp add: char_eq_nat of_char_digit_char) 

lemma hd_show_nat: "hd (show_nat n) = CHR ''0'' \<longleftrightarrow> n = 0"
proof (induction n rule: show_nat.induct)
  case (1 n)
  show ?case
  proof (cases "n < 10")
    case True
    then show ?thesis by (subst show_nat.simps) (simp add: digit_char_eq_zero)
  next
    case False
    with 1 show ?thesis
      by (subst show_nat.simps) (simp add: show_nat_nonempty)
  qed
qed

lemma show_nat_zero: "show_nat 0 = ''0''"
  by (subst show_nat.simps) (simp add: char_eq_nat of_char_digit_char)

lemma takeWhile_digits: "list_all is_digit ds \<Longrightarrow> number_end rest \<Longrightarrow> takeWhile is_digit (ds @ rest) = ds"
  by (cases rest) (auto simp: number_end_def list_all_iff takeWhile_append2)

lemma dropWhile_digits: "list_all is_digit ds \<Longrightarrow> number_end rest \<Longrightarrow> dropWhile is_digit (ds @ rest) = rest"
  by (cases rest) (auto simp: number_end_def list_all_iff dropWhile_append2)

lemma show_nat_leading: "\<not> (length (show_nat n) > 1 \<and> hd (show_nat n) = CHR ''0'')"
  by (cases "n = 0") (simp_all add: hd_show_nat show_nat_zero)

lemma parse_digits_show_nat:
  assumes "number_end rest"
  shows "parse_digits (show_nat n @ rest) = Some (n, rest)"
proof -
  have tw: "takeWhile is_digit (show_nat n @ rest) = show_nat n"
    by (rule takeWhile_digits [OF show_nat_digits assms])
  have dw: "dropWhile is_digit (show_nat n @ rest) = rest"
    by (rule dropWhile_digits [OF show_nat_digits assms])
  have "parse_digits (show_nat n @ rest) =
      (case rest of
         [] \<Rightarrow> Some (n, rest)
       | c # _ \<Rightarrow> if c = CHR ''.'' \<or> c = CHR ''e'' \<or> c = CHR ''E'' then None
                  else Some (n, rest))"
    unfolding parse_digits_def Let_def tw dw
    using show_nat_leading [of n]
    by (auto simp: show_nat_nonempty read_show_nat split: list.split)
  also have "\<dots> = Some (n, rest)"
    using assms by (cases rest) (auto simp: number_end_def)
  finally show ?thesis .
qed

lemma show_nat_Cons: "\<exists>c cs. show_nat n = c # cs \<and> is_digit c"
  using show_nat_digits [of n] show_nat_nonempty [of n] by (cases "show_nat n") auto

lemma is_digit_not_minus: "is_digit c \<Longrightarrow> c \<noteq> CHR ''-''"
  by (auto simp: is_digit_iff)

lemma parse_number_show_int:
  assumes "number_end rest"
  shows "parse_number (show_int i @ rest) = Some (i, rest)"
proof (cases "i < 0")
  case True
  then show ?thesis
    using parse_digits_show_nat [OF assms, of "nat (- i)"]
    by (simp add: parse_number_def show_int_def)
next
  case False
  obtain c cs where c: "show_nat (nat i) = c # cs" "is_digit c"
    using show_nat_Cons by blast
  have "parse_digits (c # cs @ rest) = Some (nat i, rest)"
    using parse_digits_show_nat [OF assms, of "nat i"] c by simp
  with False c show ?thesis
    by (simp add: parse_number_def show_int_def is_digit_not_minus)
qed

subsection \<open>Strings\<close>

lemma hex_val_hex_digit: "d < 16 \<Longrightarrow> hex_val (hex_digit d) = Some d"
  by (simp add: hex_val_def hex_digit_def less_eq_char_def)

lemma hex_val_zero: "hex_val CHR ''0'' = Some 0"
  by (simp add: hex_val_def less_eq_char_def)

lemma unicode_escape_control:
  assumes "(of_char c :: nat) < 32"
  shows "unicode_escape CHR ''0'' CHR ''0'' (hex_digit (of_char c div 16)) (hex_digit (of_char c mod 16)) = Some c"
proof -
  have "(of_char c :: nat) div 16 < 16" using assms by simp
  then show ?thesis
    by (simp add: unicode_escape_def hex_val_zero hex_val_hex_digit)
qed

lemma parse_chars_escape_char:
  "parse_chars (escape_char c @ rest) = cons_char c (parse_chars rest)"
proof -
  consider "c = CHR 0x22" | "c = CHR 0x5C" | "c = CHR 0x08" | "c = CHR 0x0C"
    | "c = CHR 0x0A" | "c = CHR 0x0D" | "c = CHR 0x09"
    | "c \<notin> {CHR 0x22, CHR 0x5C, CHR 0x08, CHR 0x0C, CHR 0x0A, CHR 0x0D, CHR 0x09}" "(of_char c :: nat) < 32"
    | "c \<notin> {CHR 0x22, CHR 0x5C, CHR 0x08, CHR 0x0C, CHR 0x0A, CHR 0x0D, CHR 0x09}" "\<not> (of_char c :: nat) < 32"
    by blast
  then show ?thesis
  proof cases
    case 8
    then show ?thesis
      by (simp add: escape_char_def unicode_escape_control)
  next
    case 9
    then show ?thesis by (simp add: escape_char_def)
  qed (simp_all add: escape_char_def simple_escape_def)
qed

lemma parse_chars_quote_body:
  "parse_chars (concat (map escape_char s) @ CHR 0x22 # rest) = Some (s, rest)"
  by (induction s) (simp_all add: parse_chars_escape_char cons_char_def)

subsection \<open>Values\<close>

lemma value_end_number_end: "value_end rest \<Longrightarrow> number_end rest"
  by (auto simp: value_end_def number_end_def is_digit_iff split: list.splits)

lemma value_end_simps [simp]:
  "value_end []" "value_end (CHR '','' # s)" "value_end (newline_indent j @ s)"
  by (simp_all add: value_end_def newline_indent_def)

lemma dropWhile_spaces: "dropWhile is_ws (replicate j CHR '' '' @ s) = dropWhile is_ws s"
  by (induction j) (simp_all add: is_ws_def)

lemma skip_ws_newline_indent [simp]: "skip_ws (newline_indent j @ s) = skip_ws s"
  by (simp add: skip_ws_def newline_indent_def dropWhile_spaces) (simp add: is_ws_def)

lemma skip_ws_space [simp]: "skip_ws (CHR '' '' # s) = skip_ws s"
  by (simp add: skip_ws_def is_ws_def)

lemma skip_ws_not_ws: "\<not> is_ws c \<Longrightarrow> skip_ws (c # s) = c # s"
  by (simp add: skip_ws_def)

lemma skip_ws_starts_value: "starts_value s \<Longrightarrow> skip_ws s = s"
  by (cases s) (simp_all add: starts_value_def skip_ws_def)

lemma show_int_Cons: "\<exists>c cs. show_int i = c # cs \<and> (c = CHR ''-'' \<or> is_digit c)"
  using show_nat_Cons [of "nat i"] by (auto simp: show_int_def)

lemma digit_or_minus_facts:
  assumes "c = CHR ''-'' \<or> is_digit c"
  shows "\<not> is_ws c" "c \<noteq> CHR ''n''" "c \<noteq> CHR ''t''" "c \<noteq> CHR ''f''" "c \<noteq> CHR 0x22"
    "c \<noteq> CHR ''[''" "c \<noteq> CHR ''{''" "c \<noteq> CHR '']''" "c \<noteq> CHR ''}''"
  using assms by (auto simp: is_digit_iff is_ws_def)

lemma starts_value_serialize: "starts_value (serialize i v @ rest)"
proof (cases v)
  case (JNum n)
  obtain c cs where "show_int n = c # cs" "c = CHR ''-'' \<or> is_digit c"
    using show_int_Cons by blast
  with JNum show ?thesis
    using digit_or_minus_facts [of c] by (simp add: starts_value_def)
next
  case (JArr xs)
  then show ?thesis by (cases xs) (simp_all add: starts_value_def is_ws_def)
next
  case (JObj kvs)
  then show ?thesis by (cases kvs) (simp_all add: starts_value_def is_ws_def)
qed (simp_all add: starts_value_def is_ws_def quote_def)

lemma starts_value_elements: "xs \<noteq> [] \<Longrightarrow> starts_value (serialize_elements i xs @ rest)"
proof (cases xs)
  case (Cons x ys)
  then show ?thesis
    using starts_value_serialize [of i x] by (cases ys) simp_all
qed simp

lemma starts_value_quote: "starts_value (quote k @ rest)"
  by (simp add: starts_value_def quote_def is_ws_def)

lemma starts_value_members: "kvs \<noteq> [] \<Longrightarrow> starts_value (serialize_members i kvs @ rest)"
proof (cases kvs)
  case (Cons kv ys)
  then show ?thesis
    using starts_value_quote [of "fst kv"] by (cases kv; cases ys) simp_all
qed simp

lemma parse_value_ws [simp]: "parse_value n (newline_indent j @ s) = parse_value n s"
  by (cases n) simp_all

lemma parse_value_space [simp]: "parse_value n (CHR '' '' # s) = parse_value n s"
  by (cases n) simp_all

lemma parse_elements_ws [simp]: "parse_elements n (newline_indent j @ s) = parse_elements n s"
  by (cases n) simp_all

lemma parse_members_ws [simp]: "parse_members n (newline_indent j @ s) = parse_members n s"
  by (cases n) simp_all

lemma parse_value_null: "parse_value (Suc n) (''null'' @ rest) = Some (JNull, rest)"
  by (simp add: skip_ws_def is_ws_def strip_prefix_def)

lemma parse_value_true: "parse_value (Suc n) (''true'' @ rest) = Some (JBool True, rest)"
  by (simp add: skip_ws_def is_ws_def strip_prefix_def)

lemma parse_value_false: "parse_value (Suc n) (''false'' @ rest) = Some (JBool False, rest)"
  by (simp add: skip_ws_def is_ws_def strip_prefix_def)

lemma parse_value_quote: "parse_value (Suc n) (quote s @ rest) = Some (JStr s, rest)"
  by (simp add: skip_ws_def is_ws_def quote_def parse_chars_quote_body)

lemma parse_value_number:
  assumes "value_end rest"
  shows "parse_value (Suc n) (show_int i @ rest) = Some (JNum i, rest)"
proof -
  obtain c cs where c: "show_int i = c # cs" "c = CHR ''-'' \<or> is_digit c"
    using show_int_Cons by blast
  have "parse_number (c # cs @ rest) = Some (i, rest)"
    using parse_number_show_int [OF value_end_number_end [OF assms], of i] c by simp
  then show ?thesis
    using c digit_or_minus_facts [OF c(2)] by (simp add: skip_ws_not_ws)
qed

lemma parse_value_empty_array: "parse_value (Suc n) (''[]'' @ rest) = Some (JArr [], rest)"
  by (simp add: skip_ws_def is_ws_def)

lemma parse_value_empty_object: "parse_value (Suc n) (''{}'' @ rest) = Some (JObj [], rest)"
  by (simp add: skip_ws_def is_ws_def)

lemma parse_value_array:
  assumes "starts_value s"
  shows "parse_value (Suc n) (CHR ''['' # newline_indent j @ s) =
    (case parse_elements n s of None \<Rightarrow> None | Some (xs, rest) \<Rightarrow> Some (JArr xs, rest))"
proof -
  obtain d ds where d: "s = d # ds" "d \<noteq> CHR '']''" "\<not> is_ws d"
    using assms by (cases s) (auto simp: starts_value_def)
  have "skip_ws s = d # ds" using d by (simp add: skip_ws_not_ws)
  then show ?thesis
    using d by (simp add: skip_ws_not_ws is_ws_def)
qed

lemma parse_value_object:
  assumes "starts_value s"
  shows "parse_value (Suc n) (CHR ''{'' # newline_indent j @ s) =
    (case parse_members n s of None \<Rightarrow> None | Some (kvs, rest) \<Rightarrow> Some (object_of kvs, rest))"
proof -
  obtain d ds where d: "s = d # ds" "d \<noteq> CHR ''}''" "\<not> is_ws d"
    using assms by (cases s) (auto simp: starts_value_def)
  have "skip_ws s = d # ds" using d by (simp add: skip_ws_not_ws)
  then show ?thesis
    using d by (simp add: skip_ws_not_ws is_ws_def)
qed

lemma parse_elements_last:
  assumes "parse_value n s = Some (x, newline_indent j @ CHR '']'' # rest)"
  shows "parse_elements (Suc n) s = Some ([x], rest)"
  using assms by (simp add: skip_ws_not_ws is_ws_def)

lemma parse_elements_more:
  assumes "parse_value n s = Some (x, CHR '','' # rest1)"
  shows "parse_elements (Suc n) s =
    (case parse_elements n rest1 of None \<Rightarrow> None | Some (xs, rest) \<Rightarrow> Some (x # xs, rest))"
  using assms by (simp add: skip_ws_not_ws is_ws_def)

lemma parse_members_key:
  "parse_members (Suc n) (quote k @ '': '' @ s) =
    (case parse_value n s of
       None \<Rightarrow> None
     | Some (v, rest2) \<Rightarrow>
         (case skip_ws rest2 of
            [] \<Rightarrow> None
          | c # rest3 \<Rightarrow>
              if c = CHR '','' then
                (case parse_members n rest3 of
                   None \<Rightarrow> None
                 | Some (kvs, rest4) \<Rightarrow> Some ((k, v) # kvs, rest4))
              else if c = CHR ''}'' then Some ([(k, v)], rest3)
              else None))"
  by (simp add: quote_def skip_ws_not_ws is_ws_def parse_chars_quote_body)

lemma parse_members_last:
  assumes "parse_value n s = Some (v, newline_indent j @ CHR ''}'' # rest)"
  shows "parse_members (Suc n) (quote k @ '': '' @ s) = Some ([(k, v)], rest)"
  unfolding parse_members_key using assms by (simp add: skip_ws_not_ws is_ws_def)

lemma parse_members_more:
  assumes "parse_value n s = Some (v, CHR '','' # rest1)"
  shows "parse_members (Suc n) (quote k @ '': '' @ s) =
    (case parse_members n rest1 of None \<Rightarrow> None | Some (kvs, rest) \<Rightarrow> Some ((k, v) # kvs, rest))"
  unfolding parse_members_key using assms by (simp add: skip_ws_not_ws is_ws_def)

lemma assign_fresh: "k \<notin> fst ` set kvs \<Longrightarrow> assign kvs k v = kvs @ [(k, v)]"
  by (induction kvs) auto

lemma foldl_assign_distinct:
  "distinct (map fst kvs) \<Longrightarrow> fst ` set acc \<inter> fst ` set kvs = {} \<Longrightarrow>
   foldl (\<lambda>kvs (k, v). assign kvs k v) acc kvs = acc @ kvs"
proof (induction kvs arbitrary: acc)
  case Nil
  then show ?case by simp
next
  case (Cons kv kvs)
  obtain k v where kv: "kv = (k, v)" by (cases kv)
  have fresh: "k \<notin> fst ` set acc" using Cons.prems kv by auto
  have "fst ` set (acc @ [(k, v)]) \<inter> fst ` set kvs = {}"
    using Cons.prems kv by auto
  with Cons show ?case
    by (simp add: kv assign_fresh [OF fresh])
qed

lemma object_of_distinct: "distinct (map fst kvs) \<Longrightarrow> object_of kvs = JObj kvs"
  by (simp add: object_of_def foldl_assign_distinct)

lemma parse_serialize:
  "well_formed v \<Longrightarrow> nesting v \<le> n \<Longrightarrow> value_end rest \<Longrightarrow>
     parse_value n (serialize i v @ rest) = Some (v, rest)"
  "xs \<noteq> [] \<Longrightarrow> well_formed_elements xs \<Longrightarrow> nesting_elements xs \<le> n \<Longrightarrow>
     parse_elements n (serialize_elements i xs @ newline_indent j @ CHR '']'' # rest) = Some (xs, rest)"
  "kvs \<noteq> [] \<Longrightarrow> well_formed_members kvs \<Longrightarrow> nesting_members kvs \<le> n \<Longrightarrow>
     parse_members n (serialize_members i kvs @ newline_indent j @ CHR ''}'' # rest) = Some (kvs, rest)"
proof (induction v and xs and kvs arbitrary: n i rest and n i j rest and n i j rest
    rule: nesting_nesting_elements_nesting_members.induct)
  case 1
  then obtain m where "n = Suc m" by (cases n) auto
  then show ?case using parse_value_null by simp
next
  case (2 b)
  then obtain m where "n = Suc m" by (cases n) auto
  then show ?case using parse_value_true parse_value_false by (cases b) simp_all
next
  case (3 k)
  then obtain m where "n = Suc m" by (cases n) auto
  with 3 show ?case using parse_value_number by simp
next
  case (4 b)
  then show ?case by simp
next
  case (5 s)
  then obtain m where "n = Suc m" by (cases n) auto
  then show ?case using parse_value_quote by simp
next
  case (6 xs)
  then obtain m where m: "n = Suc m" "nesting_elements xs \<le> m" by (cases n) auto
  show ?case
  proof (cases xs)
    case Nil
    then show ?thesis using m parse_value_empty_array by simp
  next
    case (Cons y ys)
    have "parse_elements m (serialize_elements (i + 2) xs @ newline_indent i @ CHR '']'' # rest)
        = Some (xs, rest)"
      using "6.IH" [of m "i + 2" i rest] "6.prems" m Cons by simp
    then show ?thesis
      using m Cons parse_value_array [OF starts_value_elements, of xs m "i + 2" "i + 2"
          "newline_indent i @ CHR '']'' # rest"]
      by simp
  qed
next
  case (7 kvs)
  then obtain m where m: "n = Suc m" "nesting_members kvs \<le> m" by (cases n) auto
  show ?case
  proof (cases kvs)
    case Nil
    then show ?thesis using m parse_value_empty_object by simp
  next
    case (Cons y ys)
    have "parse_members m (serialize_members (i + 2) kvs @ newline_indent i @ CHR ''}'' # rest)
        = Some (kvs, rest)"
      using "7.IH" [of m "i + 2" i rest] "7.prems" m Cons by simp
    then show ?thesis
      using m Cons "7.prems" object_of_distinct [of kvs]
        parse_value_object [OF starts_value_members, of kvs m "i + 2" "i + 2"
          "newline_indent i @ CHR ''}'' # rest"]
      by simp
  qed
next
  case 8
  then show ?case by simp
next
  case (9 x xs)
  then obtain m where m: "n = Suc m" "nesting x \<le> m" "nesting_elements xs \<le> m"
    by (cases n) auto
  show ?case
  proof (cases xs)
    case Nil
    have "parse_value m (serialize i x @ newline_indent j @ CHR '']'' # rest)
        = Some (x, newline_indent j @ CHR '']'' # rest)"
      using "9.IH"(1) [of m "newline_indent j @ CHR '']'' # rest" i] "9.prems" m by simp
    then show ?thesis
      using Nil m parse_elements_last by simp
  next
    case (Cons y ys)
    let ?tail = "newline_indent i @ serialize_elements i xs @ newline_indent j @ CHR '']'' # rest"
    have "parse_value m (serialize i x @ CHR '','' # ?tail) = Some (x, CHR '','' # ?tail)"
      using "9.IH"(1) [of m "CHR '','' # ?tail" i] "9.prems" m by simp
    moreover have "parse_elements m ?tail = Some (xs, rest)"
      using "9.IH"(2) [of m i j rest] "9.prems" m Cons by simp
    ultimately show ?thesis
      using Cons m parse_elements_more [of m "serialize i x @ CHR '','' # ?tail" x ?tail]
      by simp
  qed
next
  case 10
  then show ?case by simp
next
  case (11 k v kvs)
  then obtain m where m: "n = Suc m" "nesting v \<le> m" "nesting_members kvs \<le> m"
    by (cases n) auto
  show ?case
  proof (cases kvs)
    case Nil
    have "parse_value m (serialize i v @ newline_indent j @ CHR ''}'' # rest)
        = Some (v, newline_indent j @ CHR ''}'' # rest)"
      using "11.IH"(1) [of m "newline_indent j @ CHR ''}'' # rest" i] "11.prems" m by simp
    then show ?thesis
      using Nil m parse_members_last [of m _ v j rest k] by simp
  next
    case (Cons y ys)
    let ?tail = "newline_indent i @ serialize_members i kvs @ newline_indent j @ CHR ''}'' # rest"
    have "parse_value m (serialize i v @ CHR '','' # ?tail) = Some (v, CHR '','' # ?tail)"
      using "11.IH"(1) [of m "CHR '','' # ?tail" i] "11.prems" m by simp
    moreover have "parse_members m ?tail = Some (kvs, rest)"
      using "11.IH"(2) [of m i j rest] "11.prems" m Cons by simp
    ultimately show ?thesis
      using Cons m parse_members_more [of m "serialize i v @ CHR '','' # ?tail" v ?tail k]
      by simp
  qed
qed

lemma length_show_int: "0 < length (show_int i)"
  using show_int_Cons [of i] by auto

lemma nesting_le_length:
  "nesting v \<le> length (serialize i v)"
  "nesting_elements xs \<le> Suc (length (serialize_elements i xs))"
  "nesting_members kvs \<le> Suc (length (serialize_members i kvs))"
proof (induction i v and i xs and i kvs rule: serialize_serialize_elements_serialize_members.induct)
  case (3 n i)
  then show ?case using length_show_int [of i] by (cases "show_int i") simp_all
next
  case (7 n x xs)
  then show ?case by (simp add: newline_indent_def)
next
  case (9 n kv kvs)
  then show ?case by (simp add: newline_indent_def)
next
  case (12 n x y ys)
  then show ?case by (simp add: newline_indent_def)
next
  case (15 n k v kv kvs)
  then show ?case by (simp add: newline_indent_def)
qed (simp_all add: quote_def)

text \<open>The text of a value parses back to the value.\<close>

lemma JSON_parse_stringify: "well_formed v \<Longrightarrow> JSON_parse (JSON_stringify v) = Inr v"
  using parse_serialize(1) [of v "Suc (length (serialize 0 v))" "[]" 0] nesting_le_length(1) [of v 0]
  by (simp add: JSON_parse_def JSON_stringify_def skip_ws_def)

subsection \<open>Numbers that are not finite\<close>

text \<open>
  The text of a value is the text of what the store keeps of it, so reading back what
  \<^verbatim>\<open>JSON.stringify\<close> wrote gives the value with \<^verbatim>\<open>null\<close> in the place of every number
  that is not finite; that is the value itself exactly when it is JSON data.
\<close>

lemma stored_elements_Nil [simp]: "stored_elements xs = [] \<longleftrightarrow> xs = []"
  by (cases xs) simp_all

lemma stored_members_Nil [simp]: "stored_members kvs = [] \<longleftrightarrow> kvs = []"
  by (cases kvs) auto

lemma serialize_stored:
  "serialize n (stored v) = serialize n v"
  "serialize_elements n (stored_elements xs) = serialize_elements n xs"
  "serialize_members n (stored_members kvs) = serialize_members n kvs"
proof (induction n v and n xs and n kvs rule: serialize_serialize_elements_serialize_members.induct)
  case (7 n x xs)
  then show ?case by simp
next
  case (9 n kv kvs)
  then show ?case by (cases kv) simp
next
  case (15 n k v kv kvs)
  then show ?case by (cases kv) simp
qed simp_all

lemma keys_stored_members [simp]: "map fst (stored_members kvs) = map fst kvs"
  by (induction kvs) auto

lemma map_of_stored_members: "map_of (stored_members kvs) k = map_option stored (map_of kvs k)"
  by (induction kvs) auto

lemma stored_elements_append [simp]:
  "stored_elements (xs @ ys) = stored_elements xs @ stored_elements ys"
  by (induction xs) simp_all

lemma length_stored_elements [simp]: "length (stored_elements xs) = length xs"
  by (induction xs) simp_all

lemma well_formed_stored:
  "distinct_keys v \<Longrightarrow> well_formed (stored v)"
  "distinct_keys_elements xs \<Longrightarrow> well_formed_elements (stored_elements xs)"
  "distinct_keys_members kvs \<Longrightarrow> well_formed_members (stored_members kvs)"
  by (induction v and xs and kvs rule: stored_stored_elements_stored_members.induct) simp_all

lemma stored_well_formed:
  "well_formed v \<Longrightarrow> stored v = v"
  "well_formed_elements xs \<Longrightarrow> stored_elements xs = xs"
  "well_formed_members kvs \<Longrightarrow> stored_members kvs = kvs"
  by (induction v and xs and kvs rule: stored_stored_elements_stored_members.induct) simp_all

lemma well_formed_distinct_keys:
  "well_formed v \<Longrightarrow> distinct_keys v"
  "well_formed_elements xs \<Longrightarrow> distinct_keys_elements xs"
  "well_formed_members kvs \<Longrightarrow> distinct_keys_members kvs"
  by (induction v and xs and kvs rule: stored_stored_elements_stored_members.induct) simp_all

lemma stored_unchanged:
  "distinct_keys v \<Longrightarrow> stored v = v \<longleftrightarrow> well_formed v"
  "distinct_keys_elements xs \<Longrightarrow> stored_elements xs = xs \<longleftrightarrow> well_formed_elements xs"
  using well_formed_stored(1) [of v] stored_well_formed(1) [of v]
    well_formed_stored(2) [of xs] stored_well_formed(2) [of xs] by auto

lemma JSON_parse_stringify_stored:
  "distinct_keys v \<Longrightarrow> JSON_parse (JSON_stringify v) = Inr (stored v)"
  using JSON_parse_stringify [of "stored v"] well_formed_stored(1) [of v]
  by (simp add: JSON_stringify_def serialize_stored)

subsection \<open>What the parser builds\<close>

text \<open>Assignment keeps the keys of an object distinct, so every parsed value is well formed.\<close>

lemma map_of_assign: "map_of (assign kvs k v) = (map_of kvs)(k \<mapsto> v)"
  by (induction kvs) auto

lemma keys_assign: "fst ` set (assign kvs k v) = insert k (fst ` set kvs)"
  using arg_cong [OF map_of_assign [of kvs k v], of dom]
  by (simp add: dom_map_of_conv_image_fst)

lemma distinct_assign: "distinct (map fst kvs) \<Longrightarrow> distinct (map fst (assign kvs k v))"
  by (induction kvs) (auto simp: keys_assign)

lemma well_formed_members_assign:
  "well_formed_members kvs \<Longrightarrow> well_formed v \<Longrightarrow> well_formed_members (assign kvs k v)"
  by (induction kvs) auto

lemma well_formed_foldl_assign:
  "well_formed_members members \<Longrightarrow> well_formed_members acc \<Longrightarrow> distinct (map fst acc) \<Longrightarrow>
   well_formed_members (foldl (\<lambda>kvs (k, v). assign kvs k v) acc members)
   \<and> distinct (map fst (foldl (\<lambda>kvs (k, v). assign kvs k v) acc members))"
proof (induction members arbitrary: acc)
  case Nil
  then show ?case by simp
next
  case (Cons kv members)
  obtain k v where kv: "kv = (k, v)" by (cases kv)
  show ?case
    using Cons.IH [of "assign acc k v"] Cons.prems
    by (simp add: kv well_formed_members_assign distinct_assign)
qed

lemma well_formed_object_of: "well_formed_members members \<Longrightarrow> well_formed (object_of members)"
  using well_formed_foldl_assign [of members "[]"] by (simp add: object_of_def)

lemma parse_well_formed:
  "parse_value n s = Some (v, r) \<Longrightarrow> well_formed v"
  "parse_elements n s = Some (xs, r) \<Longrightarrow> well_formed_elements xs"
  "parse_members n s = Some (kvs, r) \<Longrightarrow> well_formed_members kvs"
proof (induction n s and n s and n s arbitrary: v r and xs r and kvs r
    rule: parse_value_parse_elements_parse_members.induct)
  case (1 s)
  then show ?case by simp
next
  case (2 n s)
  from "2.prems" obtain c cs where s: "skip_ws s = c # cs"
    by (cases "skip_ws s") simp_all
  consider (lit) "c = CHR ''n'' \<or> c = CHR ''t'' \<or> c = CHR ''f'' \<or> c = CHR 0x22"
    | (arr) "c = CHR ''[''" | (obj) "c = CHR ''{''"
    | (num) "c \<notin> {CHR ''n'', CHR ''t'', CHR ''f'', CHR 0x22, CHR ''['', CHR ''{''}"
    by blast
  then show ?case
  proof cases
    case lit
    with "2.prems" s show ?thesis
      by (auto split: if_splits option.splits)
  next
    case arr
    from "2.prems" s arr obtain d ds where d: "skip_ws cs = d # ds"
      by (cases "skip_ws cs") simp_all
    show ?thesis
    proof (cases "d = CHR '']''")
      case True
      with "2.prems" s arr d show ?thesis by auto
    next
      case False
      with "2.prems" s arr d obtain ys where ys: "parse_elements n cs = Some (ys, r)" "v = JArr ys"
        by (auto split: option.splits)
      have "well_formed_elements ys"
        using "2.IH"(1) [OF s _ _ _ _ _ d False ys(1)] arr by simp
      with ys show ?thesis by simp
    qed
  next
    case obj
    from "2.prems" s obj obtain d ds where d: "skip_ws cs = d # ds"
      by (cases "skip_ws cs") simp_all
    show ?thesis
    proof (cases "d = CHR ''}''")
      case True
      with "2.prems" s obj d show ?thesis by auto
    next
      case False
      with "2.prems" s obj d obtain ms where ms: "parse_members n cs = Some (ms, r)"
        "v = object_of ms"
        by (auto split: option.splits)
      have "well_formed_members ms"
        using "2.IH"(2) [OF s _ _ _ _ _ _ d False ms(1)] obj by simp
      with ms show ?thesis by (simp add: well_formed_object_of)
    qed
  next
    case num
    with "2.prems" s show ?thesis
      by (auto split: option.splits)
  qed
next
  case (3 s)
  then show ?case by simp
next
  case (4 n s)
  from "4.prems" obtain x rest where x: "parse_value n s = Some (x, rest)"
    by (cases "parse_value n s") auto
  from "4.prems" x obtain c cs where c: "skip_ws rest = c # cs"
    by (cases "skip_ws rest") simp_all
  have wx: "well_formed x" using "4.IH"(1) [OF x] .
  show ?case
  proof (cases "c = CHR '',''")
    case True
    with "4.prems" x c obtain ys where ys: "parse_elements n cs = Some (ys, r)" "xs = x # ys"
      by (auto split: option.splits)
    have "well_formed_elements ys"
      using "4.IH"(2) [OF x refl c True ys(1)] .
    with wx ys show ?thesis by simp
  next
    case False
    with "4.prems" x c wx show ?thesis by (auto split: if_splits)
  qed
next
  case (5 s)
  then show ?case by simp
next
  case (6 n s)
  from "6.prems" obtain q cs where q: "skip_ws s = q # cs"
    by (cases "skip_ws s") simp_all
  from "6.prems" q have q2: "\<not> q \<noteq> CHR 0x22" by (auto split: if_splits)
  from "6.prems" q q2 obtain k rest where k: "parse_chars cs = Some (k, rest)"
    by (cases "parse_chars cs") auto
  from "6.prems" q q2 k obtain colon rest1 where c1: "skip_ws rest = colon # rest1"
    by (cases "skip_ws rest") simp_all
  from "6.prems" q q2 k c1 have c2: "\<not> colon \<noteq> CHR '':''" by (auto split: if_splits)
  from "6.prems" q q2 k c1 c2 obtain x rest2 where x: "parse_value n rest1 = Some (x, rest2)"
    by (cases "parse_value n rest1") auto
  from "6.prems" q q2 k c1 c2 x obtain c rest3 where c3: "skip_ws rest2 = c # rest3"
    by (cases "skip_ws rest2") simp_all
  have wx: "well_formed x"
    using "6.IH"(1) [OF q q2 k refl c1 c2 x] .
  show ?case
  proof (cases "c = CHR '',''")
    case True
    with "6.prems" q q2 k c1 c2 x c3 obtain ms where
      ms: "parse_members n rest3 = Some (ms, r)" "kvs = (k, x) # ms"
      by (auto split: option.splits)
    have "well_formed_members ms"
      using "6.IH"(2) [OF q q2 k refl c1 c2 x refl c3 True ms(1)] .
    with wx ms show ?thesis by simp
  next
    case False
    with "6.prems" q q2 k c1 c2 x c3 wx show ?thesis by (auto split: if_splits)
  qed
qed

lemma JSON_parse_well_formed: "JSON_parse data = Inr v \<Longrightarrow> well_formed v"
  using parse_well_formed(1) [of "Suc (length data)" data v]
  by (auto simp: JSON_parse_def split: option.splits if_splits)

subsection \<open>The bound of the parser\<close>

text \<open>
  A parse that succeeds with some bound succeeds, with the same result, with every bound
  that is at least the number of characters it consumes. So the bound
  \<^verbatim>\<open>JSON_parse\<close> takes from the length of the text is never what makes a text fail
  to parse: any larger bound gives the same result.
\<close>

lemma length_skip_ws: "length (skip_ws s) \<le> length s"
  by (simp add: skip_ws_def length_dropWhile_le)

lemma skip_ws_Cons_length: "skip_ws s = c # cs \<Longrightarrow> length cs < length s"
  using length_skip_ws [of s] by simp

lemma parse_chars_shorter: "parse_chars cs = Some (str, rest) \<Longrightarrow> length rest < length cs"
proof (induction cs arbitrary: str rest rule: parse_chars.induct)
  case 1
  then show ?case by simp
next
  case (2 c cs)
  show ?case
  proof (cases "c = CHR 0x22")
    case True
    with "2.prems" show ?thesis by simp
  next
    case quote: False
    show ?thesis
    proof (cases "c = CHR 0x5C")
      case False
      with "2.prems" quote obtain t where "parse_chars cs = Some (t, rest)"
        by (auto simp: cons_char_def split: if_splits option.splits)
      from "2.IH"(3) [OF quote False _ this] "2.prems" quote False show ?thesis
        by (auto split: if_splits)
    next
      case True
      from "2.prems" quote True obtain e r where cs: "cs = e # r"
        by (cases cs) auto
      show ?thesis
      proof (cases "e = CHR ''u''")
        case False
        with "2.prems" quote True cs obtain ch t where ch: "simple_escape e = Some ch"
          "parse_chars r = Some (t, rest)"
          by (auto simp: cons_char_def split: option.splits)
        from "2.IH"(2) [OF quote True cs False ch] cs show ?thesis by simp
      next
        case u: True
        with "2.prems" quote True cs obtain a b c' d r' where r: "r = a # b # c' # d # r'"
          by (auto split: list.splits)
        with "2.prems" quote True cs u obtain ch t where ch: "unicode_escape a b c' d = Some ch"
          "parse_chars r' = Some (t, rest)"
          by (auto simp: cons_char_def split: option.splits)
        from "2.IH"(1) [OF quote True cs u r refl refl refl ch] cs r show ?thesis by simp
      qed
    qed
  qed
qed

lemma strip_prefix_shorter: "strip_prefix p cs = Some r \<Longrightarrow> length r \<le> length cs"
  by (auto simp: strip_prefix_def split: if_splits)

lemma parse_digits_shorter: "parse_digits s = Some (n, rest) \<Longrightarrow> length rest < length s"
proof -
  assume a: "parse_digits s = Some (n, rest)"
  then have r: "rest = dropWhile is_digit s" and ne: "takeWhile is_digit s \<noteq> []"
    by (auto simp: parse_digits_def Let_def split: if_splits list.splits)
  have "length (takeWhile is_digit s) + length (dropWhile is_digit s) = length s"
    by (metis length_append takeWhile_dropWhile_id)
  with r ne show ?thesis by (cases "takeWhile is_digit s") auto
qed

lemma parse_number_shorter: "parse_number s = Some (i, rest) \<Longrightarrow> length rest < length s"
  by (cases s)
    (auto simp: parse_number_def dest!: parse_digits_shorter split: if_splits option.splits)


lemma parse_fuel:
  "parse_value m s = Some (v, r) \<Longrightarrow>
     length r < length s \<and> (\<forall>n. length s - length r \<le> n \<longrightarrow> parse_value n s = Some (v, r))"
  "parse_elements m s = Some (xs, r) \<Longrightarrow>
     length r < length s \<and> (\<forall>n. length s - length r \<le> n \<longrightarrow> parse_elements n s = Some (xs, r))"
  "parse_members m s = Some (kvs, r) \<Longrightarrow>
     length r < length s \<and> (\<forall>n. length s - length r \<le> n \<longrightarrow> parse_members n s = Some (kvs, r))"
proof (induction m s and m s and m s arbitrary: v r and xs r and kvs r
    rule: parse_value_parse_elements_parse_members.induct)
  case (1 s)
  then show ?case by simp
next
  case (2 m s)
  from "2.prems" obtain c cs where s: "skip_ws s = c # cs"
    by (cases "skip_ws s") simp_all
  have len: "length cs < length s" using s by (rule skip_ws_Cons_length)
  consider (lit) "c = CHR ''n'' \<or> c = CHR ''t'' \<or> c = CHR ''f'' \<or> c = CHR 0x22"
    | (arr) "c = CHR ''[''" | (obj) "c = CHR ''{''"
    | (num) "c \<notin> {CHR ''n'', CHR ''t'', CHR ''f'', CHR 0x22, CHR ''['', CHR ''{''}"
    by blast
  then show ?case
  proof cases
    case lit
    have same: "parse_value (Suc n) s = parse_value (Suc m) s" for n
      using s lit by auto
    have "length r \<le> length cs"
      using "2.prems" s lit
      by (auto split: if_splits option.splits
          dest: strip_prefix_shorter parse_chars_shorter less_imp_le)
    with len have short: "length r < length s" by simp
    have "parse_value n s = Some (v, r)" if "length s - length r \<le> n" for n
    proof -
      from that short obtain k where "n = Suc k" by (cases n) auto
      with same "2.prems" show ?thesis by simp
    qed
    with short show ?thesis by blast
  next
    case num
    have same: "parse_value (Suc n) s = parse_value (Suc m) s" for n
      using s num by auto
    from "2.prems" s num obtain i where "parse_number (c # cs) = Some (i, r)"
      by (auto split: option.splits)
    then have "length r < length (c # cs)" by (rule parse_number_shorter)
    with s length_skip_ws [of s] have short: "length r < length s" by simp
    have "parse_value n s = Some (v, r)" if "length s - length r \<le> n" for n
    proof -
      from that short obtain k where "n = Suc k" by (cases n) auto
      with same "2.prems" show ?thesis by simp
    qed
    with short show ?thesis by blast
  next
    case arr
    from "2.prems" s arr obtain d ds where d: "skip_ws cs = d # ds"
      by (cases "skip_ws cs") simp_all
    show ?thesis
    proof (cases "d = CHR '']''")
      case True
      have same: "parse_value (Suc n) s = parse_value (Suc m) s" for n
        using s arr d True by simp
      from "2.prems" s arr d True have "r = ds" by simp
      with skip_ws_Cons_length [OF d] len have short: "length r < length s" by simp
      have "parse_value n s = Some (v, r)" if "length s - length r \<le> n" for n
      proof -
        from that short obtain k where "n = Suc k" by (cases n) auto
        with same "2.prems" show ?thesis by simp
      qed
      with short show ?thesis by blast
    next
      case False
      with "2.prems" s arr d obtain ys where ys: "parse_elements m cs = Some (ys, r)" "v = JArr ys"
        by (auto split: option.splits)
      have IH: "length r < length cs"
        "\<And>n. length cs - length r \<le> n \<Longrightarrow> parse_elements n cs = Some (ys, r)"
        using "2.IH"(1) [OF s _ _ _ _ _ d False ys(1)] arr by simp_all
      have short: "length r < length s" using IH(1) len by simp
      have "parse_value n s = Some (v, r)" if "length s - length r \<le> n" for n
      proof -
        from that short obtain k where k: "n = Suc k" by (cases n) auto
        with that len IH(1) have "length cs - length r \<le> k" by simp
        from IH(2) [OF this] k s arr d False ys(2) show ?thesis by simp
      qed
      with short show ?thesis by blast
    qed
  next
    case obj
    from "2.prems" s obj obtain d ds where d: "skip_ws cs = d # ds"
      by (cases "skip_ws cs") simp_all
    show ?thesis
    proof (cases "d = CHR ''}''")
      case True
      have same: "parse_value (Suc n) s = parse_value (Suc m) s" for n
        using s obj d True by simp
      from "2.prems" s obj d True have "r = ds" by simp
      with skip_ws_Cons_length [OF d] len have short: "length r < length s" by simp
      have "parse_value n s = Some (v, r)" if "length s - length r \<le> n" for n
      proof -
        from that short obtain k where "n = Suc k" by (cases n) auto
        with same "2.prems" show ?thesis by simp
      qed
      with short show ?thesis by blast
    next
      case False
      with "2.prems" s obj d obtain ms where ms: "parse_members m cs = Some (ms, r)"
        "v = object_of ms"
        by (auto split: option.splits)
      have IH: "length r < length cs"
        "\<And>n. length cs - length r \<le> n \<Longrightarrow> parse_members n cs = Some (ms, r)"
        using "2.IH"(2) [OF s _ _ _ _ _ _ d False ms(1)] obj by simp_all
      have short: "length r < length s" using IH(1) len by simp
      have "parse_value n s = Some (v, r)" if "length s - length r \<le> n" for n
      proof -
        from that short obtain k where k: "n = Suc k" by (cases n) auto
        with that len IH(1) have "length cs - length r \<le> k" by simp
        from IH(2) [OF this] k s obj d False ms(2) show ?thesis by simp
      qed
      with short show ?thesis by blast
    qed
  qed
next
  case (3 s)
  then show ?case by simp
next
  case (4 m s)
  from "4.prems" obtain x rest where x: "parse_value m s = Some (x, rest)"
    by (cases "parse_value m s") auto
  from "4.prems" x obtain c cs where c: "skip_ws rest = c # cs"
    by (cases "skip_ws rest") simp_all
  have IH1: "length rest < length s"
    "\<And>n. length s - length rest \<le> n \<Longrightarrow> parse_value n s = Some (x, rest)"
    using "4.IH"(1) [OF x] by simp_all
  have len: "length cs < length rest" using c by (rule skip_ws_Cons_length)
  show ?case
  proof (cases "c = CHR '',''")
    case True
    with "4.prems" x c obtain ys where ys: "parse_elements m cs = Some (ys, r)" "xs = x # ys"
      by (auto split: option.splits)
    have IH2: "length r < length cs"
      "\<And>n. length cs - length r \<le> n \<Longrightarrow> parse_elements n cs = Some (ys, r)"
      using "4.IH"(2) [OF x refl c True ys(1)] by simp_all
    have short: "length r < length s" using IH1(1) IH2(1) len by simp
    have "parse_elements n s = Some (xs, r)" if "length s - length r \<le> n" for n
    proof -
      from that short obtain k where k: "n = Suc k" by (cases n) auto
      with that len IH1(1) IH2(1) have "length s - length rest \<le> k" "length cs - length r \<le> k"
        by simp_all
      from IH1(2) [OF this(1)] IH2(2) [OF this(2)] k c True ys(2) show ?thesis by simp
    qed
    with short show ?thesis by blast
  next
    case False
    with "4.prems" x c have e: "c = CHR '']''" "xs = [x]" "r = cs"
      by (auto split: if_splits)
    have short: "length r < length s" using IH1(1) len e by simp
    have "parse_elements n s = Some (xs, r)" if "length s - length r \<le> n" for n
    proof -
      from that short obtain k where k: "n = Suc k" by (cases n) auto
      with that len IH1(1) e have "length s - length rest \<le> k" by simp
      from IH1(2) [OF this] k c e show ?thesis by simp
    qed
    with short show ?thesis by blast
  qed
next
  case (5 s)
  then show ?case by simp
next
  case (6 m s)
  from "6.prems" obtain q cs where q: "skip_ws s = q # cs"
    by (cases "skip_ws s") simp_all
  from "6.prems" q have q2: "\<not> q \<noteq> CHR 0x22" by (auto split: if_splits)
  from "6.prems" q q2 obtain k rest where k: "parse_chars cs = Some (k, rest)"
    by (cases "parse_chars cs") auto
  from "6.prems" q q2 k obtain colon rest1 where c1: "skip_ws rest = colon # rest1"
    by (cases "skip_ws rest") simp_all
  from "6.prems" q q2 k c1 have c2: "\<not> colon \<noteq> CHR '':''" by (auto split: if_splits)
  from "6.prems" q q2 k c1 c2 obtain x rest2 where x: "parse_value m rest1 = Some (x, rest2)"
    by (cases "parse_value m rest1") auto
  from "6.prems" q q2 k c1 c2 x obtain c rest3 where c3: "skip_ws rest2 = c # rest3"
    by (cases "skip_ws rest2") simp_all
  have IH1: "length rest2 < length rest1"
    "\<And>n. length rest1 - length rest2 \<le> n \<Longrightarrow> parse_value n rest1 = Some (x, rest2)"
    using "6.IH"(1) [OF q q2 k refl c1 c2 x] by simp_all
  have l1: "length cs < length s" using q by (rule skip_ws_Cons_length)
  have l2: "length rest < length cs" using k by (rule parse_chars_shorter)
  have l3: "length rest1 < length rest" using c1 by (rule skip_ws_Cons_length)
  have l4: "length rest3 < length rest2" using c3 by (rule skip_ws_Cons_length)
  show ?case
  proof (cases "c = CHR '',''")
    case True
    with "6.prems" q q2 k c1 c2 x c3 obtain ms where
      ms: "parse_members m rest3 = Some (ms, r)" "kvs = (k, x) # ms"
      by (auto split: option.splits)
    have IH2: "length r < length rest3"
      "\<And>n. length rest3 - length r \<le> n \<Longrightarrow> parse_members n rest3 = Some (ms, r)"
      using "6.IH"(2) [OF q q2 k refl c1 c2 x refl c3 True ms(1)] by simp_all
    have short: "length r < length s" using l1 l2 l3 l4 IH1(1) IH2(1) by simp
    have "parse_members n s = Some (kvs, r)" if "length s - length r \<le> n" for n
    proof -
      from that short obtain j where j: "n = Suc j" by (cases n) auto
      with that l1 l2 l3 l4 IH1(1) IH2(1)
      have "length rest1 - length rest2 \<le> j" "length rest3 - length r \<le> j"
        by simp_all
      from IH1(2) [OF this(1)] IH2(2) [OF this(2)] j q q2 k c1 c2 c3 True ms(2)
      show ?thesis by simp
    qed
    with short show ?thesis by blast
  next
    case False
    with "6.prems" q q2 k c1 c2 x c3 have e: "c = CHR ''}''" "kvs = [(k, x)]" "r = rest3"
      by (auto split: if_splits)
    have short: "length r < length s" using l1 l2 l3 l4 IH1(1) e by simp
    have "parse_members n s = Some (kvs, r)" if "length s - length r \<le> n" for n
    proof -
      from that short obtain j where j: "n = Suc j" by (cases n) auto
      with that l1 l2 l3 l4 IH1(1) e have "length rest1 - length rest2 \<le> j" by simp
      from IH1(2) [OF this] j q q2 k c1 c2 c3 e show ?thesis by simp
    qed
    with short show ?thesis by blast
  qed
qed

lemma JSON_parse_fuel:
  assumes "Suc (length content) \<le> m"
  shows "JSON_parse content =
     (case parse_value m content of
        None \<Rightarrow> Inl SyntaxError
      | Some (v, rest) \<Rightarrow> if skip_ws rest = [] then Inr v else Inl SyntaxError)"
proof (cases "parse_value m content")
  case None
  have "parse_value (Suc (length content)) content = None"
  proof (rule ccontr)
    assume "parse_value (Suc (length content)) content \<noteq> None"
    then obtain v r where "parse_value (Suc (length content)) content = Some (v, r)" by auto
    from parse_fuel(1) [OF this]
    have "\<forall>n. length content - length r \<le> n \<longrightarrow> parse_value n content = Some (v, r)"
      by blast
    moreover have "length content - length r \<le> m" using assms by simp
    ultimately have "parse_value m content = Some (v, r)" by blast
    with None show False by simp
  qed
  with None show ?thesis by (simp add: JSON_parse_def del: parse_value.simps)
next
  case (Some a)
  obtain v r where a: "a = (v, r)" by (cases a)
  have "parse_value m content = Some (v, r)" using Some a by simp
  from parse_fuel(1) [OF this]
  have "\<forall>n. length content - length r \<le> n \<longrightarrow> parse_value n content = Some (v, r)"
    by blast
  moreover have "length content - length r \<le> Suc (length content)" by simp
  ultimately have "parse_value (Suc (length content)) content = Some (v, r)" by blast
  with Some a show ?thesis by (simp add: JSON_parse_def del: parse_value.simps)
qed

section \<open>Properties of the CSV projection\<close>

lemma set_foldl_Set_add: "set (foldl Set_add s ks) = set s \<union> set ks"
  by (induction ks arbitrary: s) (auto simp: Set_add_def)

lemma distinct_foldl_Set_add: "distinct s \<Longrightarrow> distinct (foldl Set_add s ks)"
  by (induction ks arbitrary: s) (auto simp: Set_add_def)

lemma collect_keys_objects:
  "\<exists>ks. collect_keys allKeys (map JObj recs) = Inr ks
     \<and> set ks = set allKeys \<union> (\<Union>r\<in>set recs. fst ` set r)
     \<and> (distinct allKeys \<longrightarrow> distinct ks)"
proof (induction recs arbitrary: allKeys)
  case Nil
  then show ?case by simp
next
  case (Cons r recs)
  obtain ks where ks: "collect_keys (foldl Set_add allKeys (map fst r)) (map JObj recs) = Inr ks"
    "set ks = set (foldl Set_add allKeys (map fst r)) \<union> (\<Union>r\<in>set recs. fst ` set r)"
    "distinct (foldl Set_add allKeys (map fst r)) \<longrightarrow> distinct ks"
    using Cons.IH by blast
  then show ?case
    by (auto simp: set_foldl_Set_add distinct_foldl_Set_add)
qed

lemma csv_headers_objects:
  "csv_headers (map JObj recs) = Inr (sorted_list_of_set (\<Union>r\<in>set recs. fst ` set r))"
proof -
  obtain ks where ks: "collect_keys [] (map JObj recs) = Inr ks"
    "set ks = (\<Union>r\<in>set recs. fst ` set r)" "distinct ks"
    using collect_keys_objects [of "[]" recs] by auto
  have "sort ks = sorted_list_of_set (set ks)"
    using ks(3) by (simp add: sorted_list_of_set_sort_remdups distinct_remdups_id)
  then show ?thesis
    using ks by (simp add: csv_headers_def)
qed

lemma map_throwing_Inr:
  "map_throwing f xs = Inr ys \<longleftrightarrow>
     length ys = length xs \<and> (\<forall>i<length xs. f (xs ! i) = Inr (ys ! i))"
proof (induction xs arbitrary: ys)
  case Nil
  then show ?case by auto
next
  case (Cons x xs)
  show ?case
  proof (cases ys)
    case Nil
    then show ?thesis by (auto split: sum.splits)
  next
    case (Cons y ys')
    then show ?thesis
      using Cons.IH [of ys'] by (auto simp: nth_Cons split: sum.splits nat.splits)
  qed
qed

lemma csv_field_own:
  assumes "map_of r k = Some v" "truthy v" "ToString v = Inr s"
  shows "csv_field (JObj r) k = Inr (CHR 0x22 # double_quotes s @ [CHR 0x22])"
  using assms by (simp add: csv_field_def)

lemma csv_field_falsy:
  assumes "map_of r k = Some v" "\<not> truthy v"
  shows "csv_field (JObj r) k = Inr [CHR 0x22, CHR 0x22]"
  using assms by (simp add: csv_field_def)

lemma csv_field_missing:
  assumes "map_of r k = None" "k \<notin> set Object_prototype"
  shows "csv_field (JObj r) k = Inr [CHR 0x22, CHR 0x22]"
  using assms by (simp add: csv_field_def inherited_def)

lemma csv_field_inherited:
  assumes "map_of r k = None" "k \<in> set Object_prototype"
  shows "csv_field (JObj r) k = Inr (CHR 0x22 # double_quotes (native_text k) @ [CHR 0x22])"
  using assms by (simp add: csv_field_def inherited_def)

lemma csv_row_InrD:
  assumes "csv_row headers r = Inr row"
  shows "\<exists>cells. row = join '','' cells \<and> length cells = length headers
        \<and> (\<forall>j<length headers. csv_field r (headers ! j) = Inr (cells ! j))"
  using assms by (auto simp: csv_row_def map_throwing_Inr split: sum.splits)

lemma csvContent_InrD:
  assumes "csv_headers responses = Inr headers" "csvContent responses = Inr content"
  shows "\<exists>csvRows. content = join [CHR 0x0A] (csvHeader headers # csvRows)
        \<and> length csvRows = length responses
        \<and> (\<forall>i<length responses. csv_row headers (responses ! i) = Inr (csvRows ! i))"
  using assms by (auto simp: csvContent_def map_throwing_Inr split: sum.splits)

text \<open>
  What \<^verbatim>\<open>saveAsCSV\<close> writes for a non-empty list of records, when it returns: the CSV
  file holds the header row of the sorted union of the keys of all records and then one
  row per record, in the order of the list, with one field per header; and the field of
  a record for a key it does not have is empty (two double quotes), unless the key names
  a member of \<^verbatim>\<open>Object.prototype\<close>.
\<close>

theorem saveAsCSV_projection:
  assumes "recs \<noteq> []" and "saveAsCSV (map JObj recs) s = Inr s'"
  shows "\<exists>d csvRows.
     responses_dir s = Some d
     \<and> s' = s\<lparr>responses_dir := Some (d(survey_responses_csv \<mapsto>
            join [CHR 0x0A]
              (csvHeader (sorted_list_of_set (\<Union>r\<in>set recs. fst ` set r)) # csvRows)))\<rparr>
     \<and> length csvRows = length recs
     \<and> (\<forall>i<length recs. \<exists>cells.
           csvRows ! i = join '','' cells
           \<and> length cells = length (sorted_list_of_set (\<Union>r\<in>set recs. fst ` set r))
           \<and> (\<forall>j<length cells.
                 csv_field (JObj (recs ! i)) (sorted_list_of_set (\<Union>r\<in>set recs. fst ` set r) ! j)
                   = Inr (cells ! j)
                 \<and> (map_of (recs ! i) (sorted_list_of_set (\<Union>r\<in>set recs. fst ` set r) ! j) = None
                      \<and> sorted_list_of_set (\<Union>r\<in>set recs. fst ` set r) ! j \<notin> set Object_prototype
                    \<longrightarrow> cells ! j = [CHR 0x22, CHR 0x22])))"
proof -
  let ?headers = "sorted_list_of_set (\<Union>r\<in>set recs. fst ` set r)"
  obtain content where content: "csvContent (map JObj recs) = Inr content"
    and w: "writeFile s survey_responses_csv content = Inr s'"
    using assms by (auto simp: saveAsCSV_def split: sum.splits)
  obtain d where d: "responses_dir s = Some d"
    and s': "s' = s\<lparr>responses_dir := Some (d(survey_responses_csv \<mapsto> content))\<rparr>"
    using w by (auto simp: writeFile_def split: option.splits if_splits)
  obtain csvRows where rows: "content = join [CHR 0x0A] (csvHeader ?headers # csvRows)"
    "length csvRows = length recs"
    "\<forall>i<length recs. csv_row ?headers (JObj (recs ! i)) = Inr (csvRows ! i)"
    using csvContent_InrD [OF csv_headers_objects content] by auto
  have "\<exists>cells. csvRows ! i = join '','' cells \<and> length cells = length ?headers
          \<and> (\<forall>j<length cells.
                csv_field (JObj (recs ! i)) (?headers ! j) = Inr (cells ! j)
                \<and> (map_of (recs ! i) (?headers ! j) = None \<and> ?headers ! j \<notin> set Object_prototype
                     \<longrightarrow> cells ! j = [CHR 0x22, CHR 0x22]))"
    if "i < length recs" for i
  proof -
    have "csv_row ?headers (JObj (recs ! i)) = Inr (csvRows ! i)"
      using rows(3) that by blast
    from csv_row_InrD [OF this]
    obtain cells where c: "csvRows ! i = join '','' cells" "length cells = length ?headers"
      "\<forall>j<length ?headers. csv_field (JObj (recs ! i)) (?headers ! j) = Inr (cells ! j)"
      by blast
    have "cells ! j = [CHR 0x22, CHR 0x22]"
      if "j < length cells" "map_of (recs ! i) (?headers ! j) = None"
        "?headers ! j \<notin> set Object_prototype" for j
    proof -
      have "csv_field (JObj (recs ! i)) (?headers ! j) = Inr (cells ! j)"
        using c(2,3) that(1) by metis
      then show ?thesis
        using csv_field_missing [OF that(2,3)] by simp
    qed
    with c show ?thesis by metis
  qed
  with d s' rows show ?thesis by blast
qed

section \<open>Statistics\<close>

lemma get_prop_timestamp: "get_prop (JObj r) ''timestamp'' = Inr (timestamp_of r)"
  by (simp add: timestamp_of_def inherited_def Object_prototype_def split: option.splits)



lemma count_date_step:
  assumes "d \<notin> set Object_prototype" "tallies dateCount"
  shows "\<exists>n. get_prop (JObj dateCount) d = Inr n
           \<and> plus_one n = Inr (JNum (tally dateCount d + 1))"
proof (cases "map_of dateCount d")
  case None
  with assms show ?thesis
    by (simp add: inherited_def plus_one_def tally_def)
next
  case (Some v)
  then obtain n where "v = JNum n" "0 < n" using assms(2) by (auto simp: tallies_def)
  with Some show ?thesis
    by (simp add: plus_one_def tally_def)
qed

lemma count_dates_objects:
  assumes "\<forall>p. toDateString p \<notin> set Object_prototype"
  shows "tallies dateCount \<Longrightarrow> distinct (map fst dateCount) \<Longrightarrow>
    \<forall>r\<in>set recs. convertible (timestamp_of r) \<Longrightarrow>
    \<exists>dc. count_dates toDateString dateCount (map JObj recs) = Inr dc
       \<and> tallies dc \<and> distinct (map fst dc)
       \<and> (\<forall>d. tally dc d = tally dateCount d
              + int (length (filter (\<lambda>r. day_of toDateString r = d) recs)))"
proof (induction recs arbitrary: dateCount)
  case Nil
  then show ?case by simp
next
  case (Cons r recs)
  obtain p where p: "ToPrimitive (timestamp_of r) = Inr p"
    using Cons.prems(3) by (auto simp: convertible_def split: sum.splits)
  let ?d = "toDateString p"
  have day: "day_of toDateString r = ?d" using p by (simp add: day_of_def)
  let ?dc1 = "assign dateCount ?d (JNum (tally dateCount ?d + 1))"
  obtain n where n: "get_prop (JObj dateCount) ?d = Inr n"
    "plus_one n = Inr (JNum (tally dateCount ?d + 1))"
    using count_date_step [of ?d dateCount] assms Cons.prems by blast
  have nonneg: "0 \<le> tally dateCount ?d"
  proof (cases "map_of dateCount ?d")
    case None
    then show ?thesis by (simp add: tally_def)
  next
    case (Some v)
    then obtain k where "v = JNum k" "0 < k" using Cons.prems(1) by (auto simp: tallies_def)
    with Some show ?thesis by (simp add: tally_def)
  qed
  have t1: "tallies ?dc1"
    using Cons.prems(1) nonneg by (auto simp: tallies_def map_of_assign)
  have d1: "distinct (map fst ?dc1)"
    using Cons.prems(2) by (rule distinct_assign)
  have c1: "\<forall>r\<in>set recs. convertible (timestamp_of r)"
    using Cons.prems(3) by simp
  obtain dc where dc: "count_dates toDateString ?dc1 (map JObj recs) = Inr dc"
    "tallies dc" "distinct (map fst dc)"
    "\<forall>d. tally dc d = tally ?dc1 d
        + int (length (filter (\<lambda>r. day_of toDateString r = d) recs))"
    using Cons.IH [OF t1 d1 c1] by blast
  have step: "count_dates toDateString dateCount (map JObj (r # recs)) = Inr dc"
    using n dc(1) p by (simp add: get_prop_timestamp del: get_prop.simps)
  have "tally ?dc1 d = tally dateCount d + (if ?d = d then 1 else 0)" for d
    by (simp add: tally_def map_of_assign)
  with dc step day show ?case by auto
qed

lemma count_dates_throws:
  assumes "\<forall>p. toDateString p \<notin> set Object_prototype"
  shows "tallies dateCount \<Longrightarrow> \<exists>r\<in>set recs. \<not> convertible (timestamp_of r) \<Longrightarrow>
    \<exists>e. count_dates toDateString dateCount (map JObj recs) = Inl e"
proof (induction recs arbitrary: dateCount)
  case Nil
  then show ?case by simp
next
  case (Cons r recs)
  show ?case
  proof (cases "ToPrimitive (timestamp_of r)")
    case (Inl e)
    then show ?thesis by (simp add: get_prop_timestamp del: get_prop.simps)
  next
    case (Inr p)
    let ?d = "toDateString p"
    let ?dc1 = "assign dateCount ?d (JNum (tally dateCount ?d + 1))"
    obtain n where n: "get_prop (JObj dateCount) ?d = Inr n"
      "plus_one n = Inr (JNum (tally dateCount ?d + 1))"
      using count_date_step [of ?d dateCount] assms Cons.prems by blast
    have nonneg: "0 \<le> tally dateCount ?d"
    proof (cases "map_of dateCount ?d")
      case None
      then show ?thesis by (simp add: tally_def)
    next
      case (Some v)
      then obtain k where "v = JNum k" "0 < k" using Cons.prems(1) by (auto simp: tallies_def)
      with Some show ?thesis by (simp add: tally_def)
    qed
    have t1: "tallies ?dc1"
      using Cons.prems(1) nonneg by (auto simp: tallies_def map_of_assign)
    have "\<exists>r\<in>set recs. \<not> convertible (timestamp_of r)"
      using Cons.prems(2) Inr by (auto simp: convertible_def)
    then obtain e where "count_dates toDateString ?dc1 (map JObj recs) = Inl e"
      using Cons.IH [OF t1] by blast
    then show ?thesis
      using n Inr by (simp add: get_prop_timestamp del: get_prop.simps)
  qed
qed

lemma getResponsesByDate_objects:
  assumes "\<forall>p. toDateString p \<notin> set Object_prototype"
    and "\<forall>r\<in>set recs. convertible (timestamp_of r)"
  shows "\<exists>dc. getResponsesByDate toDateString (map JObj recs) = Inr (JObj dc)
       \<and> distinct (map fst dc)
       \<and> (\<forall>d. map_of dc d =
             (if \<exists>r\<in>set recs. day_of toDateString r = d
              then Some (JNum (int (length (filter (\<lambda>r. day_of toDateString r = d) recs))))
              else None))"
proof -
  have "tallies []" by (simp add: tallies_def)
  then obtain dc where dc: "count_dates toDateString [] (map JObj recs) = Inr dc"
    "tallies dc" "distinct (map fst dc)"
    "\<forall>d. tally dc d = tally [] d
        + int (length (filter (\<lambda>r. day_of toDateString r = d) recs))"
    using count_dates_objects [OF assms(1), of "[]" recs] assms(2) by auto
  have "map_of dc d =
      (if \<exists>r\<in>set recs. day_of toDateString r = d
       then Some (JNum (int (length (filter (\<lambda>r. day_of toDateString r = d) recs))))
       else None)" for d
  proof -
    let ?n = "length (filter (\<lambda>r. day_of toDateString r = d) recs)"
    have t: "tally dc d = int ?n" using dc(4) by (simp add: tally_def)
    have pos: "(\<exists>r\<in>set recs. day_of toDateString r = d) \<longleftrightarrow> 0 < ?n"
      by (simp add: length_greater_0_conv filter_empty_conv del: length_0_conv)
    show ?thesis
    proof (cases "map_of dc d")
      case None
      then have "?n = 0" using t by (simp add: tally_def)
      with None pos show ?thesis by simp
    next
      case (Some v)
      then obtain n where "v = JNum n" "0 < n" using dc(2) by (auto simp: tallies_def)
      with Some t pos show ?thesis by (auto simp: tally_def)
    qed
  qed
  with dc show ?thesis by (auto simp: getResponsesByDate_def)
qed

lemma getResponsesByDate_throws:
  assumes "\<forall>p. toDateString p \<notin> set Object_prototype"
    and "\<exists>r\<in>set recs. \<not> convertible (timestamp_of r)"
  shows "\<exists>e. getResponsesByDate toDateString (map JObj recs) = Inl e"
proof -
  have "tallies []" by (simp add: tallies_def)
  then obtain e where "count_dates toDateString [] (map JObj recs) = Inl e"
    using count_dates_throws [OF assms(1) _ assms(2)] by blast
  then show ?thesis by (simp add: getResponsesByDate_def)
qed

lemma count_userType_objects:
  "count_userType t (map JObj recs)
     = Inr (length (filter (\<lambda>r. map_of r ''userType'' = Some (JStr t)) recs))"
  by (induction recs)
    (auto simp: inherited_def Object_prototype_def split: option.splits)

lemma latestResponse_objects:
  "latestResponse (map JObj recs)
     = Inr (if recs = [] then Own JNull else timestamp_of (last recs))"
  by (cases recs rule: rev_cases)
    (simp_all add: latestResponse_def get_prop_timestamp nth_append del: get_prop.simps)

lemma array_index_length: "array_index ''length'' = None"
  by (simp add: array_index_def is_digit_iff)

lemma get_prop_array_length: "get_prop (JArr xs) ''length'' = Inr (Own (JNum (int (length xs))))"
  by (simp add: array_index_length)

lemma stats_objects:
  assumes "\<forall>p. toDateString p \<notin> set Object_prototype"
    and "\<forall>r\<in>set recs. convertible (timestamp_of r)"
  shows "\<exists>dateCount.
    stats toDateString (JArr (map JObj recs)) =
      Inr (JObj (json_fields
            [(''totalResponses'', Own (JNum (int (length recs)))),
             (''stakeholderResponses'',
                Own (JNum (int (length (filter (\<lambda>r. map_of r ''userType'' = Some (JStr ''stakeholder'')) recs))))),
             (''participantResponses'',
                Own (JNum (int (length (filter (\<lambda>r. map_of r ''userType'' = Some (JStr ''participant'')) recs))))),
             (''responsesByDate'', Own (JObj dateCount)),
             (''latestResponse'', if recs = [] then Own JNull else timestamp_of (last recs))]))
    \<and> distinct (map fst dateCount)
    \<and> (\<forall>d. map_of dateCount d =
          (if \<exists>r\<in>set recs. day_of toDateString r = d
           then Some (JNum (int (length (filter (\<lambda>r. day_of toDateString r = d) recs))))
           else None))"
proof -
  obtain dc where dc: "getResponsesByDate toDateString (map JObj recs) = Inr (JObj dc)"
    "distinct (map fst dc)"
    "\<forall>d. map_of dc d =
          (if \<exists>r\<in>set recs. day_of toDateString r = d
           then Some (JNum (int (length (filter (\<lambda>r. day_of toDateString r = d) recs))))
           else None)"
    using getResponsesByDate_objects [OF assms, of] by blast
  have "stats toDateString (JArr (map JObj recs)) =
      Inr (JObj (json_fields
            [(''totalResponses'', Own (JNum (int (length recs)))),
             (''stakeholderResponses'',
                Own (JNum (int (length (filter (\<lambda>r. map_of r ''userType'' = Some (JStr ''stakeholder'')) recs))))),
             (''participantResponses'',
                Own (JNum (int (length (filter (\<lambda>r. map_of r ''userType'' = Some (JStr ''participant'')) recs))))),
             (''responsesByDate'', Own (JObj dc)),
             (''latestResponse'', if recs = [] then Own JNull else timestamp_of (last recs))]))"
    using dc(1)
    by (simp add: stats_def get_prop_array_length count_userType_objects latestResponse_objects
        del: get_prop.simps)
  with dc(2,3) show ?thesis by blast
qed

lemma stats_throws:
  assumes "\<forall>p. toDateString p \<notin> set Object_prototype"
    and "\<exists>r\<in>set recs. \<not> convertible (timestamp_of r)"
  shows "\<exists>e. stats toDateString (JArr (map JObj recs)) = Inl e"
proof -
  obtain e where "getResponsesByDate toDateString (map JObj recs) = Inl e"
    using getResponsesByDate_throws [OF assms] by blast
  then show ?thesis
    by (simp add: stats_def get_prop_array_length count_userType_objects del: get_prop.simps)
qed

text \<open>
  C5. When the store holds a list of records whose timestamps \<^verbatim>\<open>new Date\<close> accepts (any
  timestamp but an object or array whose conversion to a string throws),
  \<^verbatim>\<open>GET /api/stats\<close> answers with \<^verbatim>\<open>totalResponses\<close> the length of the list,
  \<^verbatim>\<open>stakeholderResponses\<close> and \<^verbatim>\<open>participantResponses\<close> the numbers of records whose
  \<^verbatim>\<open>userType\<close> is the string \<^verbatim>\<open>stakeholder\<close> and \<^verbatim>\<open>participant\<close>, \<^verbatim>\<open>responsesByDate\<close> an
  object with one key for each calendar-day string of a record's timestamp, mapped to the
  number of records of that day, and \<^verbatim>\<open>latestResponse\<close> the timestamp of the last record
  of the list, whatever the timestamps of the earlier records are. When some record has a
  timestamp that \<^verbatim>\<open>new Date\<close> does not accept, the answer has status 404 instead. The
  text of the store is one of the model, so that the list the parser reads is the list
  \<^verbatim>\<open>JSON.parse\<close> reads. A calendar-day string such as \<^verbatim>\<open>Sat Mar 01 2025\<close> or
  \<^verbatim>\<open>Invalid Date\<close> is never the name of a member of \<^verbatim>\<open>Object.prototype\<close>.
\<close>

theorem get_stats_counts:
  assumes "readFile s survey_responses_json = Inr data"
    and "within_model data" and "JSON_parse data = Inr (JArr (map JObj recs))"
    and "\<forall>p. toDateString p \<notin> set Object_prototype"
  shows "((\<forall>r\<in>set recs. convertible (timestamp_of r)) \<longrightarrow>
    (\<exists>dateCount.
      get_stats toDateString s =
        Response 200
          [(''success'', JBool True),
           (''data'', JObj (json_fields
              [(''totalResponses'', Own (JNum (int (length recs)))),
               (''stakeholderResponses'',
                  Own (JNum (int (length (filter (\<lambda>r. map_of r ''userType'' = Some (JStr ''stakeholder'')) recs))))),
               (''participantResponses'',
                  Own (JNum (int (length (filter (\<lambda>r. map_of r ''userType'' = Some (JStr ''participant'')) recs))))),
               (''responsesByDate'', Own (JObj dateCount)),
               (''latestResponse'', if recs = [] then Own JNull else timestamp_of (last recs))]))]
      \<and> distinct (map fst dateCount)
      \<and> (\<forall>d. map_of dateCount d =
            (if \<exists>r\<in>set recs. day_of toDateString r = d
             then Some (JNum (int (length (filter (\<lambda>r. day_of toDateString r = d) recs))))
             else None))))
    \<and> ((\<exists>r\<in>set recs. \<not> convertible (timestamp_of r)) \<longrightarrow>
          status (get_stats toDateString s) = 404)"
proof (intro conjI impI)
  assume conv: "\<forall>r\<in>set recs. convertible (timestamp_of r)"
  from stats_objects [OF assms(4) conv]
  obtain dc where st: "stats toDateString (JArr (map JObj recs)) =
      Inr (JObj (json_fields
            [(''totalResponses'', Own (JNum (int (length recs)))),
             (''stakeholderResponses'',
                Own (JNum (int (length (filter (\<lambda>r. map_of r ''userType'' = Some (JStr ''stakeholder'')) recs))))),
             (''participantResponses'',
                Own (JNum (int (length (filter (\<lambda>r. map_of r ''userType'' = Some (JStr ''participant'')) recs))))),
             (''responsesByDate'', Own (JObj dc)),
             (''latestResponse'', if recs = [] then Own JNull else timestamp_of (last recs))]))"
    and dc: "distinct (map fst dc)"
    "\<forall>d. map_of dc d =
          (if \<exists>r\<in>set recs. day_of toDateString r = d
           then Some (JNum (int (length (filter (\<lambda>r. day_of toDateString r = d) recs))))
           else None)"
    by blast
  have "get_stats toDateString s =
      Response 200
        [(''success'', JBool True),
         (''data'', JObj (json_fields
            [(''totalResponses'', Own (JNum (int (length recs)))),
             (''stakeholderResponses'',
                Own (JNum (int (length (filter (\<lambda>r. map_of r ''userType'' = Some (JStr ''stakeholder'')) recs))))),
             (''participantResponses'',
                Own (JNum (int (length (filter (\<lambda>r. map_of r ''userType'' = Some (JStr ''participant'')) recs))))),
             (''responsesByDate'', Own (JObj dc)),
             (''latestResponse'', if recs = [] then Own JNull else timestamp_of (last recs))]))]"
    using assms(1,3) st by (simp add: get_stats_def)
  with dc show "\<exists>dateCount.
      get_stats toDateString s =
        Response 200
          [(''success'', JBool True),
           (''data'', JObj (json_fields
              [(''totalResponses'', Own (JNum (int (length recs)))),
               (''stakeholderResponses'',
                  Own (JNum (int (length (filter (\<lambda>r. map_of r ''userType'' = Some (JStr ''stakeholder'')) recs))))),
               (''participantResponses'',
                  Own (JNum (int (length (filter (\<lambda>r. map_of r ''userType'' = Some (JStr ''participant'')) recs))))),
               (''responsesByDate'', Own (JObj dateCount)),
               (''latestResponse'', if recs = [] then Own JNull else timestamp_of (last recs))]))]
      \<and> distinct (map fst dateCount)
      \<and> (\<forall>d. map_of dateCount d =
            (if \<exists>r\<in>set recs. day_of toDateString r = d
             then Some (JNum (int (length (filter (\<lambda>r. day_of toDateString r = d) recs))))
             else None))"
    by blast
next
  assume "\<exists>r\<in>set recs. \<not> convertible (timestamp_of r)"
  then obtain e where "stats toDateString (JArr (map JObj recs)) = Inl e"
    using stats_throws [OF assms(4)] by blast
  then show "status (get_stats toDateString s) = 404"
    using assms(1,3) by (simp add: get_stats_def no_responses_found_def)
qed

theorem get_stats_counts_witness:
  "(\<exists>dateCount.
     get_stats (\<lambda>p. case p of Own (JStr t) \<Rightarrow> ''day '' @ take 10 t | _ \<Rightarrow> ''Invalid Date'')
       \<lparr>responses_dir = Some ((\<lambda>p. None)(survey_responses_json \<mapsto> JSON_stringify (JArr
            [JObj [(''userType'', JStr ''participant''), (''timestamp'', JStr ''2025-03-01T18:30:00.000Z'')],
             JObj [(''userType'', JStr ''stakeholder''), (''timestamp'', JStr ''2025-03-01T08:00:00.000Z'')]]))),
        writable = True\<rparr>
     = Response 200
        [(''success'', JBool True),
         (''data'', JObj
            [(''totalResponses'', JNum 2),
             (''stakeholderResponses'', JNum 1),
             (''participantResponses'', JNum 1),
             (''responsesByDate'', JObj dateCount),
             (''latestResponse'', JStr ''2025-03-01T08:00:00.000Z'')])]
     \<and> map_of dateCount ''day 2025-03-01'' = Some (JNum 2)
     \<and> map_of dateCount ''day 2025-03-02'' = None)
   \<and> status
       (get_stats (\<lambda>p. case p of Own (JStr t) \<Rightarrow> ''day '' @ take 10 t | _ \<Rightarrow> ''Invalid Date'')
         \<lparr>responses_dir = Some ((\<lambda>p. None)(survey_responses_json \<mapsto> JSON_stringify (JArr
              [JObj [(''userType'', JStr ''participant''),
                     (''timestamp'', JObj [(''toString'', JNum 1)])]]))),
          writable = True\<rparr>) = 404"
proof -
  let ?f = "\<lambda>p. case p of Own (JStr t) \<Rightarrow> ''day '' @ take 10 t | _ \<Rightarrow> ''Invalid Date''"
  let ?recs = "[[(''userType'', JStr ''participant''), (''timestamp'', JStr ''2025-03-01T18:30:00.000Z'')],
                [(''userType'', JStr ''stakeholder''), (''timestamp'', JStr ''2025-03-01T08:00:00.000Z'')]]"
  let ?data = "JSON_stringify (JArr (map JObj ?recs))"
  let ?s = "\<lparr>responses_dir = Some ((\<lambda>p. None)(survey_responses_json \<mapsto> ?data)), writable = True\<rparr>"
  let ?thrown = "[[(''userType'', JStr ''participant''),
                   (''timestamp'', JObj [(''toString'', JNum 1)])]]"
  let ?data' = "JSON_stringify (JArr (map JObj ?thrown))"
  let ?s' = "\<lparr>responses_dir = Some ((\<lambda>p. None)(survey_responses_json \<mapsto> ?data')), writable = True\<rparr>"
  have r: "readFile ?s survey_responses_json = Inr ?data"
    by (simp add: readFile_def)
  have p: "JSON_parse ?data = Inr (JArr (map JObj ?recs))"
    by (rule JSON_parse_stringify) simp
  have f: "\<forall>p. ?f p \<notin> set Object_prototype"
    by (auto simp: Object_prototype_def split: lookup.splits jsval.splits)
  have c: "\<forall>r\<in>set ?recs. convertible (timestamp_of r)"
    by (simp add: convertible_def timestamp_of_def)
  have r': "readFile ?s' survey_responses_json = Inr ?data'"
    by (simp add: readFile_def)
  have p': "JSON_parse ?data' = Inr (JArr (map JObj ?thrown))"
    by (rule JSON_parse_stringify) simp
  have c': "\<exists>r\<in>set ?thrown. \<not> convertible (timestamp_of r)"
    by (simp add: convertible_def timestamp_of_def)
  have m: "within_model ?data" "within_model ?data'"
    by code_simp+
  have thrown: "status (get_stats ?f ?s') = 404"
    using get_stats_counts [OF r' m(2) p' f] c' by blast
  from get_stats_counts [OF r m(1) p f] c
  obtain dc where g: "get_stats ?f ?s =
      Response 200
        [(''success'', JBool True),
         (''data'', JObj (json_fields
            [(''totalResponses'', Own (JNum (int (length ?recs)))),
             (''stakeholderResponses'',
                Own (JNum (int (length (filter (\<lambda>r. map_of r ''userType'' = Some (JStr ''stakeholder'')) ?recs))))),
             (''participantResponses'',
                Own (JNum (int (length (filter (\<lambda>r. map_of r ''userType'' = Some (JStr ''participant'')) ?recs))))),
             (''responsesByDate'', Own (JObj dc)),
             (''latestResponse'', if ?recs = [] then Own JNull else timestamp_of (last ?recs))]))]"
    and m: "\<And>d. map_of dc d =
          (if \<exists>r\<in>set ?recs. day_of ?f r = d
           then Some (JNum (int (length (filter (\<lambda>r. day_of ?f r = d) ?recs))))
           else None)"
    by blast
  have "map_of dc ''day 2025-03-01'' = Some (JNum 2)"
    by (simp add: m day_of_def timestamp_of_def)
  moreover have "map_of dc ''day 2025-03-02'' = None"
    by (simp add: m day_of_def timestamp_of_def)
  moreover have "get_stats ?f ?s =
      Response 200
        [(''success'', JBool True),
         (''data'', JObj
            [(''totalResponses'', JNum 2),
             (''stakeholderResponses'', JNum 1),
             (''participantResponses'', JNum 1),
             (''responsesByDate'', JObj dc),
             (''latestResponse'', JStr ''2025-03-01T08:00:00.000Z'')])]"
    unfolding g by (simp add: timestamp_of_def)
  ultimately have "\<exists>dateCount.
     get_stats ?f ?s
     = Response 200
        [(''success'', JBool True),
         (''data'', JObj
            [(''totalResponses'', JNum 2),
             (''stakeholderResponses'', JNum 1),
             (''participantResponses'', JNum 1),
             (''responsesByDate'', JObj dateCount),
             (''latestResponse'', JStr ''2025-03-01T08:00:00.000Z'')])]
     \<and> map_of dateCount ''day 2025-03-01'' = Some (JNum 2)
     \<and> map_of dateCount ''day 2025-03-02'' = None"
    by (intro exI [of _ dc]) simp
  with thrown show ?thesis by simp
qed

section \<open>The submission handler\<close>

subsection \<open>Validation\<close>

text \<open>
  C2. A payload whose \<^verbatim>\<open>userType\<close> is absent or the empty string is answered with status
  400 and the error \<^verbatim>\<open>User type is required\<close>, and the files are left exactly as they
  were: no directory is created and neither the JSON store nor the CSV file is written, so
  the number of stored responses is unchanged.
\<close>

theorem submit_without_userType:
  assumes "map_of payload ''userType'' = None \<or> map_of payload ''userType'' = Some (JStr [])"
  shows "submit_survey e (JObj payload) s =
           (Response 400 [(''error'', JStr ''User type is required'')], s)"
  using assms by (auto simp: submit_survey_def inherited_def Object_prototype_def)

theorem submit_without_userType_witness:
  "submit_survey \<lparr>now_iso = ''2025-01-01T00:00:00.000Z'', now_ms = 1735689600000, random36 = ''0.4fzyo82mvyr''\<rparr>
     (JObj []) \<lparr>responses_dir = None, writable = True\<rparr>
   = (Response 400 [(''error'', JStr ''User type is required'')],
      \<lparr>responses_dir = None, writable = True\<rparr>)"
  using submit_without_userType [of "[]"] by simp

subsection \<open>The steps of a submission\<close>

lemma enrich_object: "enrich e (JObj payload) = Inr (JObj (enriched e payload))"
  by (simp add: enrich_def enriched_def get_prop_timestamp del: get_prop.simps)

lemma get_prop_userType:
  "get_prop (JObj payload) ''userType''
     = Inr (case map_of payload ''userType'' of Some v \<Rightarrow> Own v | None \<Rightarrow> Undefined)"
  by (simp add: inherited_def Object_prototype_def split: option.splits)

lemma get_prop_id: "get_prop (JObj (enriched e payload)) ''id'' = Inr (Own (JStr (new_id e)))"
  by (simp add: enriched_def map_of_assign)

lemma submit_survey_steps:
  "submit_survey e (JObj payload) s =
     (if \<not> accepted payload
      then (Response 400 [(''error'', JStr ''User type is required'')], s)
      else
        (case ensure_dir s of
           Inl err \<Rightarrow> (failed_to_save err, s)
         | Inr s1 \<Rightarrow>
             (case push (read_existing s1) (JObj (enriched e payload)) of
                Inl err \<Rightarrow> (failed_to_save err, s1)
              | Inr existingResponses \<Rightarrow>
                  (case writeFile s1 survey_responses_json
                          (JSON_stringify (JArr existingResponses)) of
                     Inl err \<Rightarrow> (failed_to_save err, s1)
                   | Inr s2 \<Rightarrow>
                       (case saveAsCSV existingResponses s2 of
                          Inl err \<Rightarrow> (failed_to_save err, s2)
                        | Inr s3 \<Rightarrow> (submitted e (length existingResponses), s3))))))"
  unfolding submit_survey_def enrich_object get_prop_userType
  by (simp add: accepted_def get_prop_id submitted_def del: get_prop.simps
      split: option.splits sum.splits)

lemma status_failed [simp]: "status (failed_to_save err) = 500"
  by (simp add: failed_to_save_def)

lemma status_submitted [simp]: "status (submitted e n) = 200"
  by (simp add: submitted_def)

lemma read_existing_ensure_dir: "ensure_dir s = Inr s1 \<Longrightarrow> read_existing s1 = read_existing s"
  by (auto simp: ensure_dir_def mkdir_def read_existing_def readFile_def
      split: option.splits if_splits)

lemma readFile_writeFile:
  "writeFile s p content = Inr s' \<Longrightarrow>
   readFile s' q = (if q = p then Inr content else readFile s q)"
  by (auto simp: writeFile_def readFile_def split: option.splits if_splits)

lemma readFile_saveAsCSV:
  "saveAsCSV rs s = Inr s' \<Longrightarrow> readFile s' survey_responses_json = readFile s survey_responses_json"
  by (auto simp: saveAsCSV_def readFile_writeFile split: if_splits sum.splits)

lemma push_Inr: "push v x = Inr ys \<longleftrightarrow> (\<exists>xs. v = JArr xs \<and> ys = xs @ [x])"
  by (cases v) auto

lemma submit_survey_200:
  assumes "status (fst (submit_survey e (JObj payload) s)) = 200"
  shows "\<exists>xs s'. accepted payload \<and> read_existing s = JArr xs
     \<and> submit_survey e (JObj payload) s = (submitted e (Suc (length xs)), s')
     \<and> readFile s' survey_responses_json
         = Inr (JSON_stringify (JArr (xs @ [JObj (enriched e payload)])))"
proof -
  have acc: "accepted payload"
    using assms by (auto simp: submit_survey_steps split: if_splits)
  obtain s1 where s1: "ensure_dir s = Inr s1"
    using assms acc by (cases "ensure_dir s") (auto simp: submit_survey_steps)
  obtain ys where ys: "push (read_existing s1) (JObj (enriched e payload)) = Inr ys"
    using assms acc s1
    by (cases "push (read_existing s1) (JObj (enriched e payload))")
      (auto simp: submit_survey_steps)
  obtain xs where xs: "read_existing s1 = JArr xs" "ys = xs @ [JObj (enriched e payload)]"
    using ys push_Inr by blast
  obtain s2 where s2: "writeFile s1 survey_responses_json (JSON_stringify (JArr ys)) = Inr s2"
    using assms acc s1 ys
    by (cases "writeFile s1 survey_responses_json (JSON_stringify (JArr ys))")
      (auto simp: submit_survey_steps)
  obtain s3 where s3: "saveAsCSV ys s2 = Inr s3"
    using assms acc s1 ys s2
    by (cases "saveAsCSV ys s2") (auto simp: submit_survey_steps)
  have "submit_survey e (JObj payload) s = (submitted e (length ys), s3)"
    using acc s1 ys s2 s3 by (simp add: submit_survey_steps)
  moreover have "readFile s3 survey_responses_json = Inr (JSON_stringify (JArr ys))"
    using readFile_saveAsCSV [OF s3] readFile_writeFile [OF s2] by simp
  ultimately show ?thesis
    using acc xs read_existing_ensure_dir [OF s1] by auto
qed


lemma well_formed_enriched: "well_formed (JObj payload) \<Longrightarrow> well_formed (JObj (enriched e payload))"
  by (simp add: enriched_def distinct_assign well_formed_members_assign)

lemma well_formed_read_existing: "well_formed (read_existing s)"
  by (auto simp: read_existing_def JSON_parse_well_formed split: sum.splits)

lemma read_existing_written:
  "readFile s survey_responses_json = Inr (JSON_stringify v) \<Longrightarrow> well_formed v \<Longrightarrow>
   read_existing s = v"
  by (simp add: read_existing_def JSON_parse_stringify)



lemma read_existing_stored:
  "readFile s survey_responses_json = Inr (JSON_stringify v) \<Longrightarrow> distinct_keys v \<Longrightarrow>
   read_existing s = stored v"
  by (simp add: read_existing_def JSON_parse_stringify_stored)

lemma get_responses_stored:
  assumes "readFile s survey_responses_json = Inr (JSON_stringify (JArr xs))"
    and "distinct_keys_elements xs"
  shows "get_responses s =
     Response 200 [(''success'', JBool True), (''count'', JNum (int (length xs))),
       (''data'', JArr (stored_elements xs))]"
  using assms
  by (simp add: get_responses_def JSON_parse_stringify_stored get_prop_array_length
      del: get_prop.simps)

lemma distinct_keys_members_assign:
  "distinct_keys_members kvs \<Longrightarrow> distinct_keys v \<Longrightarrow> distinct_keys_members (assign kvs k v)"
  by (induction kvs) auto

lemma distinct_keys_enriched:
  "distinct_keys (JObj payload) \<Longrightarrow> distinct_keys (JObj (enriched e payload))"
  by (simp add: enriched_def distinct_assign distinct_keys_members_assign)

lemma distinct_keys_elements_append:
  "distinct_keys_elements (xs @ ys) \<longleftrightarrow> distinct_keys_elements xs \<and> distinct_keys_elements ys"
  by (induction xs) auto

lemma submit_survey_stores:
  assumes "distinct_keys (JObj payload)"
    and "status (fst (submit_survey e (JObj payload) s)) = 200"
  shows "\<exists>xs. read_existing s = JArr xs
     \<and> fst (submit_survey e (JObj payload) s) = submitted e (Suc (length xs))
     \<and> readFile (snd (submit_survey e (JObj payload) s)) survey_responses_json
         = Inr (JSON_stringify (JArr (xs @ [JObj (enriched e payload)])))
     \<and> read_existing (snd (submit_survey e (JObj payload) s))
         = JArr (xs @ [stored (JObj (enriched e payload))])"
proof -
  obtain xs s' where xs: "read_existing s = JArr xs"
    "submit_survey e (JObj payload) s = (submitted e (Suc (length xs)), s')"
    "readFile s' survey_responses_json
         = Inr (JSON_stringify (JArr (xs @ [JObj (enriched e payload)])))"
    using submit_survey_200 [OF assms(2)] by blast
  have wf: "well_formed_elements xs"
    using well_formed_read_existing [of s] xs(1) by simp
  then have "distinct_keys (JArr (xs @ [JObj (enriched e payload)]))"
    using distinct_keys_enriched [OF assms(1), of e] well_formed_distinct_keys(2) [OF wf]
    by (simp add: distinct_keys_elements_append)
  then have "read_existing s' = stored (JArr (xs @ [JObj (enriched e payload)]))"
    using read_existing_stored [OF xs(3)] by simp
  then have "read_existing s' = JArr (xs @ [stored (JObj (enriched e payload))])"
    using stored_well_formed(2) [OF wf] by simp
  with xs show ?thesis by simp
qed






lemma digit_char_simps:
  "digit_char 0 = CHR ''0''" "digit_char 1 = CHR ''1''" "digit_char 2 = CHR ''2''"
  "digit_char 3 = CHR ''3''" "digit_char 4 = CHR ''4''" "digit_char 5 = CHR ''5''"
  "digit_char 6 = CHR ''6''" "digit_char 7 = CHR ''7''" "digit_char 8 = CHR ''8''"
  "digit_char 9 = CHR ''9''"
  by (simp_all add: char_eq_nat of_char_digit_char)

lemma show_nat_numeral:
  "show_nat (numeral k) =
     (if numeral k < (10::nat) then [digit_char (numeral k)]
      else show_nat (numeral k div 10) @ [digit_char (numeral k mod 10)])"
  by (rule show_nat.simps)

lemma show_nat_one: "show_nat (Suc 0) = ''1''"
  by (subst show_nat.simps) (simp add: char_eq_nat of_char_digit_char)

lemmas show_nat_eval = show_nat_numeral show_nat_zero show_nat_one digit_char_simps

lemma submit_survey_success:
  assumes "accepted payload" and "ensure_dir s = Inr s1" and "read_existing s1 = JArr xs"
    and "writeFile s1 survey_responses_json
           (JSON_stringify (JArr (xs @ [JObj (enriched e payload)]))) = Inr s2"
    and "saveAsCSV (xs @ [JObj (enriched e payload)]) s2 = Inr s3"
  shows "submit_survey e (JObj payload) s = (submitted e (Suc (length xs)), s3)"
  using assms by (simp add: submit_survey_steps)

lemma confirmations_Nil [simp]: "confirmations n requests = [] \<longleftrightarrow> requests = []"
  by (cases requests) auto



text \<open>
  C9, as the code has it. Writing a list of responses to the store and reading it back
  gives the list as \<^verbatim>\<open>JSON.stringify\<close> keeps it, in the same order: the text parses back
  to the list with \<^verbatim>\<open>null\<close> in the place of every number that is not finite, the read
  of the submission handler returns that list, and \<^verbatim>\<open>GET /api/responses\<close> answers with
  it and its length. What is read back is the list that was written, field for field,
  exactly when all the numbers of the list are finite. (The responses are JavaScript
  values: the keys of each object are distinct. Numbers are compared as \<^verbatim>\<open>===\<close> does,
  so \<^verbatim>\<open>-0\<close>, which is written \<^verbatim>\<open>0\<close>, counts as read back unchanged.)
\<close>

theorem store_round_trip:
  assumes "distinct_keys_elements responses"
    and "writeFile s survey_responses_json (JSON_stringify (JArr responses)) = Inr s'"
  shows "JSON_parse (JSON_stringify (JArr responses)) = Inr (JArr (stored_elements responses))
    \<and> read_existing s' = JArr (stored_elements responses)
    \<and> get_responses s' =
         Response 200
           [(''success'', JBool True), (''count'', JNum (int (length responses))),
            (''data'', JArr (stored_elements responses))]
    \<and> (stored_elements responses = responses \<longleftrightarrow> well_formed_elements responses)"
proof -
  have r: "readFile s' survey_responses_json = Inr (JSON_stringify (JArr responses))"
    using readFile_writeFile [OF assms(2)] by simp
  have "JSON_parse (JSON_stringify (JArr responses)) = Inr (JArr (stored_elements responses))"
    using JSON_parse_stringify_stored [of "JArr responses"] assms(1) by simp
  moreover have "read_existing s' = JArr (stored_elements responses)"
    using read_existing_stored [OF r] assms(1) by simp
  ultimately show ?thesis
    using get_responses_stored [OF r assms(1)] stored_unchanged(2) [OF assms(1)] by simp
qed


lemma submit_survey_writes:
  assumes "accepted payload" and "writable s" and "read_existing s = JArr xs"
    and "csvContent (xs @ [JObj (enriched e payload)]) = Inr csv"
  shows "submit_survey e (JObj payload) s =
    (submitted e (Suc (length xs)),
     s\<lparr>responses_dir := Some ((case responses_dir s of None \<Rightarrow> (\<lambda>p. None) | Some d \<Rightarrow> d)
        (survey_responses_json \<mapsto> JSON_stringify (JArr (xs @ [JObj (enriched e payload)])),
         survey_responses_csv \<mapsto> csv))\<rparr>)"
proof -
  let ?d = "case responses_dir s of None \<Rightarrow> (\<lambda>p. None) | Some d \<Rightarrow> d"
  let ?s1 = "s\<lparr>responses_dir := Some ?d\<rparr>"
  let ?json = "JSON_stringify (JArr (xs @ [JObj (enriched e payload)]))"
  have d: "ensure_dir s = Inr ?s1"
    using assms(2) by (simp add: ensure_dir_def mkdir_def split: option.splits)
  have r: "read_existing ?s1 = JArr xs"
    using read_existing_ensure_dir [OF d] assms(3) by simp
  have w: "writeFile ?s1 survey_responses_json ?json
      = Inr (s\<lparr>responses_dir := Some (?d(survey_responses_json \<mapsto> ?json))\<rparr>)"
    using assms(2) by (simp add: writeFile_def)
  have c: "saveAsCSV (xs @ [JObj (enriched e payload)])
        (s\<lparr>responses_dir := Some (?d(survey_responses_json \<mapsto> ?json))\<rparr>)
      = Inr (s\<lparr>responses_dir := Some (?d(survey_responses_json \<mapsto> ?json,
               survey_responses_csv \<mapsto> csv))\<rparr>)"
    using assms(2,4) by (simp add: saveAsCSV_def writeFile_def)
  show ?thesis
    by (rule submit_survey_success [OF assms(1) d r w c])
qed

text \<open>
  C6, as the code has it. When the JSON file exists and its text is not JSON (\<^verbatim>\<open>JSON.parse\<close>
  throws a syntax error; the text is one of the model, so that the parser stands for
  \<^verbatim>\<open>JSON.parse\<close>), the handler reads the store as the empty list: a valid submission on a
  writable disk whose record can be projected to CSV succeeds with \<^verbatim>\<open>totalResponses\<close> 1,
  and the store then holds that one record and nothing of the old text. Content that
  parses to a value that is not an array is not treated so (see the counterexample below).
\<close>

theorem unparseable_store_is_empty:
  assumes "readFile s survey_responses_json = Inr data"
    and "within_model data" and "JSON_parse data = Inl err"
    and "accepted payload" and "distinct_keys (JObj payload)" and "writable s"
    and "csvContent [JObj (enriched e payload)] = Inr csv"
  shows "read_existing s = JArr []
    \<and> fst (submit_survey e (JObj payload) s) = submitted e 1
    \<and> read_existing (snd (submit_survey e (JObj payload) s))
        = JArr [stored (JObj (enriched e payload))]
    \<and> get_responses (snd (submit_survey e (JObj payload) s)) =
        Response 200
          [(''success'', JBool True), (''count'', JNum 1),
           (''data'', JArr [stored (JObj (enriched e payload))])]"
proof -
  let ?s' = "snd (submit_survey e (JObj payload) s)"
  have r: "read_existing s = JArr []"
    using assms(1,3) by (simp add: read_existing_def)
  have run: "submit_survey e (JObj payload) s =
    (submitted e 1,
     s\<lparr>responses_dir := Some ((case responses_dir s of None \<Rightarrow> (\<lambda>p. None) | Some d \<Rightarrow> d)
        (survey_responses_json \<mapsto> JSON_stringify (JArr [JObj (enriched e payload)]),
         survey_responses_csv \<mapsto> csv))\<rparr>)"
    using submit_survey_writes [OF assms(4,6) r, of e csv] assms(7) by simp
  have f: "readFile ?s' survey_responses_json
      = Inr (JSON_stringify (JArr [JObj (enriched e payload)]))"
    unfolding run by (simp add: readFile_def)
  have d: "distinct_keys_elements [JObj (enriched e payload)]"
    using distinct_keys_enriched [OF assms(5), of e] by simp
  have "read_existing ?s' = JArr [stored (JObj (enriched e payload))]"
    using read_existing_stored [OF f] d by simp
  moreover have "get_responses ?s' =
        Response 200
          [(''success'', JBool True), (''count'', JNum 1),
           (''data'', JArr [stored (JObj (enriched e payload))])]"
    using get_responses_stored [OF f d] by simp
  ultimately show ?thesis
    using r run by simp
qed

text \<open>
  C7, as the code has it. When the JSON file holds text that parses to a value other than
  an array (an object, a string, a number, a boolean or \<^verbatim>\<open>null\<close>), a valid submission
  fails with status 500 and the files are left as they were. Text that does not parse is
  not a failure (see the counterexample below).
\<close>

theorem non_array_store_fails:
  assumes "readFile s survey_responses_json = Inr data"
    and "JSON_parse data = Inr v"
    and "\<forall>xs. v \<noteq> JArr xs"
    and "accepted payload"
  shows "submit_survey e (JObj payload) s =
    (Response 500 [(''error'', JStr ''Failed to save survey response''),
                   (''details'', JStr (message TypeError))], s)"
proof -
  obtain d where d: "responses_dir s = Some d"
    using assms(1) by (auto simp: readFile_def split: option.splits)
  have r: "read_existing s = v"
    using assms(1,2) by (simp add: read_existing_def)
  have "push v (JObj (enriched e payload)) = Inl TypeError"
    using assms(3) by (cases v) auto
  then show ?thesis
    using assms(4) d r by (simp add: submit_survey_steps ensure_dir_def failed_to_save_def)
qed

text \<open>
  C8, as the code has it. After a successful submission the stored record is the last of
  the list, and it is the record the handler built as \<^verbatim>\<open>JSON.stringify\<close> keeps it. The
  \<^verbatim>\<open>timestamp\<close> of the record the handler builds is the payload's when the payload has a
  truthy one, and the current instant's ISO string when the payload has none or a falsy
  one (\<^verbatim>\<open>''\<close>, \<^verbatim>\<open>0\<close>, \<^verbatim>\<open>false\<close>, \<^verbatim>\<open>null\<close>); the stored \<^verbatim>\<open>timestamp\<close> is that value
  with \<^verbatim>\<open>null\<close> in the place of every number that is not finite, so a truthy timestamp
  is stored unchanged when it is JSON data, and the timestamp \<^verbatim>\<open>Infinity\<close> (the literal
  \<^verbatim>\<open>1e400\<close> of a request body) is stored as \<^verbatim>\<open>null\<close>. The \<^verbatim>\<open>id\<close> is the new id, made
  of the current time in milliseconds, an underscore and up to nine characters of the
  random string, whatever \<^verbatim>\<open>id\<close> the payload had; the response's \<^verbatim>\<open>responseId\<close> is that
  id; and every other member of the payload is stored as \<^verbatim>\<open>JSON.stringify\<close> keeps it,
  unchanged when the payload is JSON data.
\<close>

theorem submission_enrichment:
  assumes "distinct_keys (JObj payload)"
    and "status (fst (submit_survey e (JObj payload) s)) = 200"
  shows "(\<exists>xs. read_existing (snd (submit_survey e (JObj payload) s))
            = JArr (xs @ [stored (JObj (enriched e payload))]))
    \<and> map_of (enriched e payload) ''timestamp'' =
         Some (case map_of payload ''timestamp'' of
                 Some t \<Rightarrow> if truthy t then t else JStr (now_iso e)
               | None \<Rightarrow> JStr (now_iso e))
    \<and> map_of (stored_members (enriched e payload)) ''timestamp'' =
         Some (case map_of payload ''timestamp'' of
                 Some t \<Rightarrow> if truthy t then stored t else JStr (now_iso e)
               | None \<Rightarrow> JStr (now_iso e))
    \<and> map_of (stored_members (enriched e payload)) ''id''
         = Some (JStr (show_int (now_ms e) @ ''_'' @ take 9 (drop 2 (random36 e))))
    \<and> map_of (body (fst (submit_survey e (JObj payload) s))) ''responseId''
         = Some (JStr (show_int (now_ms e) @ ''_'' @ take 9 (drop 2 (random36 e))))
    \<and> (\<forall>k. k \<noteq> ''timestamp'' \<and> k \<noteq> ''id''
           \<longrightarrow> map_of (stored_members (enriched e payload)) k
               = map_option stored (map_of payload k))
    \<and> (well_formed (JObj payload)
           \<longrightarrow> stored (JObj (enriched e payload)) = JObj (enriched e payload))"
proof -
  obtain xs where xs: "fst (submit_survey e (JObj payload) s) = submitted e (Suc (length xs))"
    "read_existing (snd (submit_survey e (JObj payload) s))
         = JArr (xs @ [stored (JObj (enriched e payload))])"
    using submit_survey_stores [OF assms] by blast
  have ts: "map_of (enriched e payload) ''timestamp'' =
         Some (case map_of payload ''timestamp'' of
                 Some t \<Rightarrow> if truthy t then t else JStr (now_iso e)
               | None \<Rightarrow> JStr (now_iso e))"
    by (simp add: enriched_def timestamp_of_def map_of_assign split: option.splits)
  have "map_of (stored_members (enriched e payload)) ''timestamp'' =
         Some (case map_of payload ''timestamp'' of
                 Some t \<Rightarrow> if truthy t then stored t else JStr (now_iso e)
               | None \<Rightarrow> JStr (now_iso e))"
    unfolding map_of_stored_members ts by (simp split: option.splits)
  moreover have "map_of (stored_members (enriched e payload)) k
      = map_option stored (map_of payload k)"
    if "k \<noteq> ''timestamp'' \<and> k \<noteq> ''id''" for k
    using that by (simp add: map_of_stored_members enriched_def map_of_assign)
  moreover have "stored (JObj (enriched e payload)) = JObj (enriched e payload)"
    if "well_formed (JObj payload)"
    using stored_well_formed(1) [OF well_formed_enriched [OF that]] .
  moreover have "map_of (stored_members (enriched e payload)) ''id''
         = Some (JStr (show_int (now_ms e) @ ''_'' @ take 9 (drop 2 (random36 e))))"
    by (simp add: map_of_stored_members enriched_def map_of_assign new_id_def)
  ultimately show ?thesis
    using xs ts by (simp add: submitted_def new_id_def)
qed


lemma enriched_a: "enriched env_a payload_a = record_a"
  by (simp add: enriched_def timestamp_of_def new_id_def show_int_def show_nat_eval
      env_a_def payload_a_def record_a_def)

lemma enriched_b: "enriched env_b payload_b = record_b"
  by (simp add: enriched_def timestamp_of_def new_id_def show_int_def show_nat_eval
      env_b_def payload_b_def record_b_def)

lemma new_id_a: "new_id env_a = ''1740823200000_k3j9x0q2a''"
  by (simp add: new_id_def show_int_def show_nat_eval env_a_def)

lemma new_id_b: "new_id env_b = ''1740823500000_7hq2m9zzp''"
  by (simp add: new_id_def show_int_def show_nat_eval env_b_def)

lemma csv_a:
  "csvContent [JObj record_a] =
     Inr (''\"event_question\",\"id\",\"timestamp\",\"userType\"'' @ [CHR 0x0A]
        @ ''\"Workshop\",\"1740823200000_k3j9x0q2a\",\"2025-03-01T10:00:00.000Z\",\"participant\"'')"
  unfolding record_a_def by code_simp

lemma csv_a_b:
  "csvContent [JObj record_a, JObj record_b] =
     Inr (''\"event_question\",\"id\",\"rating_0\",\"timestamp\",\"userType\"'' @ [CHR 0x0A]
        @ ''\"Workshop\",\"1740823200000_k3j9x0q2a\",\"\",\"2025-03-01T10:00:00.000Z\",\"participant\"''
        @ [CHR 0x0A]
        @ ''\"\",\"1740823500000_7hq2m9zzp\",\"4\",\"2025-02-27T09:00:00.000Z\",\"stakeholder\"'')"
  unfolding record_a_def record_b_def by code_simp

lemma accepted_examples: "accepted payload_a" "accepted payload_b"
  by (simp_all add: accepted_def payload_a_def payload_b_def)

lemma well_formed_examples:
  "well_formed (JObj payload_a)" "well_formed (JObj payload_b)"
  "well_formed (JObj record_a)" "well_formed (JObj record_b)"
  by (simp_all add: payload_a_def payload_b_def record_a_def record_b_def)


lemma submit_b_after_a:
  "status (fst (submit_survey env_b (JObj payload_b) files_after_a)) = 200"
proof -
  have "readFile files_after_a survey_responses_json = Inr (JSON_stringify (JArr [JObj record_a]))"
    by (simp add: readFile_def files_after_a_def)
  then have r: "read_existing files_after_a = JArr [JObj record_a]"
    using well_formed_examples(3) by (intro read_existing_written) simp_all
  have w: "writable files_after_a" by (simp add: files_after_a_def)
  from submit_survey_writes [OF accepted_examples(2) w r, of env_b] csv_a_b
  show ?thesis by (simp add: enriched_b)
qed


theorem store_round_trip_witness:
  "get_responses (store_with (JSON_stringify (JArr
      [JObj [(''userType'', JStr ''participant''),
             (''answers'', JArr [JStr ''say \"hi\"'', JNull, JNum (- 3), JBool True, JObj []])],
       JObj record_b])))
   = Response 200
       [(''success'', JBool True), (''count'', JNum 2),
        (''data'', JArr
          [JObj [(''userType'', JStr ''participant''),
                 (''answers'', JArr [JStr ''say \"hi\"'', JNull, JNum (- 3), JBool True, JObj []])],
           JObj record_b])]"
proof -
  let ?responses = "[JObj [(''userType'', JStr ''participant''),
             (''answers'', JArr [JStr ''say \"hi\"'', JNull, JNum (- 3), JBool True, JObj []])],
       JObj record_b]"
  have h1: "distinct_keys_elements ?responses"
    by (simp add: record_b_def)
  have h2: "writeFile (store_with ''[]'') survey_responses_json (JSON_stringify (JArr ?responses))
      = Inr (store_with (JSON_stringify (JArr ?responses)))"
    by (simp add: writeFile_def store_with_def)
  have "stored_elements ?responses = ?responses"
    by (simp add: record_b_def)
  with store_round_trip [OF h1 h2] show ?thesis by simp
qed

lemma parse_examples:
  "JSON_parse ''not json'' = Inl SyntaxError"
  "JSON_parse ''{}'' = Inr (JObj [])"
  by code_simp+

lemma readFile_store_with: "readFile (store_with content) survey_responses_json = Inr content"
  by (simp add: readFile_def store_with_def)

text \<open>
  The claim C9 as stated fails for a list that holds a number that is not finite, such as
  the rating \<^verbatim>\<open>Infinity\<close> that the body \<^verbatim>\<open>{"userType":"participant","rating":1e400}\<close>
  carries: the store is written with \<^verbatim>\<open>null\<close> in its place, and \<^verbatim>\<open>null\<close> is read back.
\<close>

theorem non_finite_number_counterexample:
  "writeFile (store_with ''[]'') survey_responses_json
       (JSON_stringify (JArr [JObj [(''userType'', JStr ''participant''),
                                    (''rating'', JInfinity False)]]))
     = Inr (store_with
       (JSON_stringify (JArr [JObj [(''userType'', JStr ''participant''),
                                    (''rating'', JInfinity False)]])))
   \<and> read_existing (store_with
       (JSON_stringify (JArr [JObj [(''userType'', JStr ''participant''),
                                    (''rating'', JInfinity False)]])))
     = JArr [JObj [(''userType'', JStr ''participant''), (''rating'', JNull)]]
   \<and> JArr [JObj [(''userType'', JStr ''participant''), (''rating'', JNull)]]
     \<noteq> JArr [JObj [(''userType'', JStr ''participant''), (''rating'', JInfinity False)]]"
proof -
  let ?written = "JArr [JObj [(''userType'', JStr ''participant''), (''rating'', JInfinity False)]]"
  have "read_existing (store_with (JSON_stringify ?written)) = stored ?written"
    by (rule read_existing_stored) (simp_all add: readFile_store_with)
  then show ?thesis
    by (simp add: writeFile_def store_with_def)
qed


theorem unparseable_store_is_empty_witness:
  "read_existing (store_with ''not json'') = JArr []
   \<and> fst (submit_survey env_a (JObj payload_a) (store_with ''not json'')) = submitted env_a 1
   \<and> read_existing (snd (submit_survey env_a (JObj payload_a) (store_with ''not json'')))
       = JArr [JObj record_a]"
proof -
  have w: "writable (store_with ''not json'')" by (simp add: store_with_def)
  have c: "csvContent [JObj (enriched env_a payload_a)] =
     Inr (''\"event_question\",\"id\",\"timestamp\",\"userType\"'' @ [CHR 0x0A]
        @ ''\"Workshop\",\"1740823200000_k3j9x0q2a\",\"2025-03-01T10:00:00.000Z\",\"participant\"'')"
    using csv_a by (simp add: enriched_a)
  have m: "within_model ''not json''" by code_simp
  have d: "distinct_keys (JObj payload_a)" by (simp add: payload_a_def)
  have "stored (JObj record_a) = JObj record_a" by (simp add: record_a_def)
  with unparseable_store_is_empty
    [OF readFile_store_with m parse_examples(1) accepted_examples(1) d w c]
  show ?thesis by (simp add: enriched_a)
qed

text \<open>
  The claim C6 as stated fails for content that is valid JSON but not a list of
  responses: with \<^verbatim>\<open>{}\<close> in the JSON file, \<^verbatim>\<open>push\<close> throws and the submission is answered
  with status 500.
\<close>

theorem non_array_store_counterexample:
  "readFile (store_with ''{}'') survey_responses_json = Inr ''{}''
   \<and> JSON_parse ''{}'' = Inr (JObj [])
   \<and> status (fst (submit_survey env_a (JObj payload_a) (store_with ''{}''))) = 500
   \<and> snd (submit_survey env_a (JObj payload_a) (store_with ''{}'')) = store_with ''{}''"
proof -
  have "read_existing (store_with ''{}'') = JObj []"
    by (simp add: read_existing_def readFile_store_with parse_examples)
  then have "submit_survey env_a (JObj payload_a) (store_with ''{}'') =
      (failed_to_save TypeError, store_with ''{}'')"
    using accepted_examples(1)
    by (simp add: submit_survey_steps ensure_dir_def store_with_def)
  then show ?thesis
    by (simp add: readFile_store_with parse_examples)
qed

theorem non_array_store_fails_witness:
  "submit_survey env_b (JObj payload_b) (store_with ''{}'') =
     (Response 500 [(''error'', JStr ''Failed to save survey response''),
                    (''details'', JStr ''TypeError'')],
      store_with ''{}'')"
proof -
  have "\<forall>xs. JObj [] \<noteq> JArr xs" by simp
  from non_array_store_fails [OF readFile_store_with parse_examples(2) this accepted_examples(2)]
  show ?thesis by simp
qed

text \<open>
  The claim C7 as stated fails for content that is not JSON: the read of the file succeeds,
  \<^verbatim>\<open>JSON.parse\<close> throws, the inner \<^verbatim>\<open>catch\<close> takes the empty list, and the submission
  succeeds with status 200.
\<close>

theorem unparseable_store_counterexample:
  "readFile (store_with ''not json'') survey_responses_json = Inr ''not json''
   \<and> JSON_parse ''not json'' = Inl SyntaxError
   \<and> fst (submit_survey env_a (JObj payload_a) (store_with ''not json'')) =
       Response 200
         [(''message'', JStr ''Survey submitted successfully''),
          (''responseId'', JStr ''1740823200000_k3j9x0q2a''),
          (''totalResponses'', JNum 1)]"
proof -
  have r: "read_existing (store_with ''not json'') = JArr []"
    by (simp add: read_existing_def readFile_store_with parse_examples)
  have w: "writable (store_with ''not json'')" by (simp add: store_with_def)
  from submit_survey_writes [OF accepted_examples(1) w r, of env_a] csv_a
  show ?thesis
    by (simp add: enriched_a readFile_store_with parse_examples submitted_def new_id_a)
qed

lemma enriched_c: "enriched env_a payload_c = record_c"
  using new_id_a by (simp add: enriched_def timestamp_of_def payload_c_def record_c_def)

lemma csv_c:
  "csvContent [JObj record_c] =
     Inr (''\"id\",\"timestamp\",\"userType\"'' @ [CHR 0x0A]
        @ ''\"1740823200000_k3j9x0q2a\",\"Infinity\",\"participant\"'')"
  unfolding record_c_def by code_simp

lemma submit_c_no_files:
  "status (fst (submit_survey env_a (JObj payload_c) no_files)) = 200"
proof -
  have a: "accepted payload_c" by (simp add: accepted_def payload_c_def)
  have r: "read_existing no_files = JArr []"
    by (simp add: read_existing_def readFile_def no_files_def)
  have w: "writable no_files" by (simp add: no_files_def)
  from submit_survey_writes [OF a w r, of env_a] csv_c
  show ?thesis by (simp add: enriched_c)
qed

theorem submission_enrichment_witness:
  "map_of (enriched env_b payload_b) ''timestamp'' = Some (JStr ''2025-02-27T09:00:00.000Z'')
   \<and> map_of (enriched env_b payload_b) ''id'' = Some (JStr ''1740823500000_7hq2m9zzp'')
   \<and> map_of (body (fst (submit_survey env_b (JObj payload_b) files_after_a))) ''responseId''
       = Some (JStr ''1740823500000_7hq2m9zzp'')
   \<and> map_of (enriched env_b payload_b) ''rating_0'' = Some (JNum 4)
   \<and> (\<exists>xs. read_existing (snd (submit_survey env_b (JObj payload_b) files_after_a))
              = JArr (xs @ [JObj record_b]))
   \<and> map_of (enriched env_a payload_c) ''timestamp'' = Some (JInfinity False)
   \<and> (\<exists>xs. read_existing (snd (submit_survey env_a (JObj payload_c) no_files))
              = JArr (xs @ [JObj [(''userType'', JStr ''participant''), (''timestamp'', JNull),
                                  (''id'', JStr ''1740823200000_k3j9x0q2a'')]]))"
proof -
  have id: "show_int (now_ms env_b) @ ''_'' @ take 9 (drop 2 (random36 env_b))
      = ''1740823500000_7hq2m9zzp''"
    using new_id_b by (simp add: new_id_def)
  have d: "distinct_keys (JObj payload_b)" "distinct_keys (JObj payload_c)"
    by (simp_all add: payload_b_def payload_c_def)
  note b = submission_enrichment [OF d(1) submit_b_after_a, unfolded enriched_b id]
  note c = submission_enrichment [OF d(2) submit_c_no_files, unfolded enriched_c]
  have "map_of record_b ''timestamp'' = Some (JStr ''2025-02-27T09:00:00.000Z'')"
    "map_of record_b ''id'' = Some (JStr ''1740823500000_7hq2m9zzp'')"
    "map_of record_b ''rating_0'' = Some (JNum 4)"
    "stored (JObj record_b) = JObj record_b"
    by (simp_all add: record_b_def)
  moreover have "map_of record_c ''timestamp'' = Some (JInfinity False)"
    "stored (JObj record_c) = JObj [(''userType'', JStr ''participant''), (''timestamp'', JNull),
                                  (''id'', JStr ''1740823200000_k3j9x0q2a'')]"
    by (simp_all add: record_c_def)
  ultimately show ?thesis
    using b c unfolding enriched_b enriched_c by metis
qed

text \<open>
  The claim C8 as stated fails for a payload that carries the timestamp \<^verbatim>\<open>0\<close> (the epoch):
  the stored record has the current instant instead.
\<close>

theorem falsy_timestamp_counterexample:
  "map_of [(''userType'', JStr ''participant''), (''timestamp'', JNum 0)] ''timestamp''
     = Some (JNum 0)
   \<and> status (fst (submit_survey env_a
        (JObj [(''userType'', JStr ''participant''), (''timestamp'', JNum 0)]) no_files)) = 200
   \<and> read_existing (snd (submit_survey env_a
        (JObj [(''userType'', JStr ''participant''), (''timestamp'', JNum 0)]) no_files))
     = JArr [JObj [(''userType'', JStr ''participant''),
                   (''timestamp'', JStr ''2025-03-01T10:00:00.000Z''),
                   (''id'', JStr ''1740823200000_k3j9x0q2a'')]]"
proof -
  let ?payload = "[(''userType'', JStr ''participant''), (''timestamp'', JNum 0)]"
  let ?stored = "[(''userType'', JStr ''participant''),
                   (''timestamp'', JStr ''2025-03-01T10:00:00.000Z''),
                   (''id'', JStr ''1740823200000_k3j9x0q2a'')]"
  have e: "enriched env_a ?payload = ?stored"
    using new_id_a by (simp add: enriched_def timestamp_of_def env_a_def)
  have c: "csvContent [JObj ?stored] =
     Inr (''\"id\",\"timestamp\",\"userType\"'' @ [CHR 0x0A]
        @ ''\"1740823200000_k3j9x0q2a\",\"2025-03-01T10:00:00.000Z\",\"participant\"'')"
    by code_simp
  have a: "accepted ?payload" by (simp add: accepted_def)
  have r: "read_existing no_files = JArr []"
    by (simp add: read_existing_def readFile_def no_files_def)
  have w: "writable no_files" by (simp add: no_files_def)
  have s: "submit_survey env_a (JObj ?payload) no_files =
    (submitted env_a 1,
     no_files\<lparr>responses_dir := Some ((\<lambda>p. None)
        (survey_responses_json \<mapsto> JSON_stringify (JArr [JObj ?stored]),
         survey_responses_csv \<mapsto>
           ''\"id\",\"timestamp\",\"userType\"'' @ [CHR 0x0A]
           @ ''\"1740823200000_k3j9x0q2a\",\"2025-03-01T10:00:00.000Z\",\"participant\"''))\<rparr>)"
    using submit_survey_writes [OF a w r, of env_a] c
    by (simp add: e no_files_def)
  have "read_existing (snd (submit_survey env_a (JObj ?payload) no_files)) = JArr [JObj ?stored]"
    unfolding s by (intro read_existing_written) (simp_all add: readFile_def no_files_def)
  then show ?thesis by (simp add: s)
qed

section \<open>Quoting in the CSV file\<close>

lemma unquote_body_double_quotes: "unquote_body (double_quotes s) = Some s"
  by (induction s) simp_all

lemma unquote_body_SomeD: "unquote_body b = Some s \<Longrightarrow> b = double_quotes s"
proof (induction b arbitrary: s rule: unquote_body.induct)
  case 1
  then show ?case by simp
next
  case (2 c cs)
  show ?case
  proof (cases "c = CHR 0x22")
    case True
    with "2.prems" obtain ds t where ds: "cs = CHR 0x22 # ds" "unquote_body ds = Some t"
      "s = CHR 0x22 # t"
      by (cases cs) (auto split: if_splits)
    have "ds = double_quotes t"
      using "2.IH"(1) [OF True ds(1) refl ds(2)] .
    with True ds show ?thesis by simp
  next
    case False
    with "2.prems" obtain t where t: "unquote_body cs = Some t" "s = c # t"
      by auto
    have "cs = double_quotes t" using "2.IH"(2) [OF False t(1)] .
    with False t show ?thesis by simp
  qed
qed

lemma length_double_quotes: "CHR 0x22 \<in> set s \<Longrightarrow> length s < length (double_quotes s)"
  "length s \<le> length (double_quotes s)"
  by (induction s) (auto simp: le_Suc_eq)

lemma count_double_quotes:
  "count_list (double_quotes s) (CHR 0x22) = 2 * count_list s (CHR 0x22)"
  by (induction s) simp_all

lemma unquote_body_even: "unquote_body b = Some s \<Longrightarrow> even (count_list b (CHR 0x22))"
  using unquote_body_SomeD [of b s] by (simp add: count_double_quotes)

lemma unquote_wrapped: "unquote (CHR 0x22 # b @ [CHR 0x22]) = unquote_body b"
  by (simp add: unquote_def)

lemma well_formed_header_field:
  "well_formed_quoted (header_field key) \<longleftrightarrow> (\<exists>t. key = double_quotes t)"
proof
  assume "well_formed_quoted (header_field key)"
  then obtain t where "unquote_body key = Some t"
    by (auto simp: well_formed_quoted_def header_field_def unquote_wrapped)
  then show "\<exists>t. key = double_quotes t"
    using unquote_body_SomeD by blast
next
  assume "\<exists>t. key = double_quotes t"
  then show "well_formed_quoted (header_field key)"
    by (auto simp: well_formed_quoted_def header_field_def unquote_wrapped
        unquote_body_double_quotes)
qed

text \<open>
  C10, as the code has it. A key is wrapped in double quotes in the header row without
  doubling its double quotes, unlike the value of a data row. So for every key that
  contains a double quote, the header field differs from the quoted field a data row
  emits for the same text, and it does not read back as the key, whereas the data-row
  field does. The header field is a well-formed quoted field exactly when every double
  quote of the key stands in an adjacent pair, that is, when the key is itself the doubled
  form of some text; the field then reads as that text, which is not the key. In every
  other case, and so whenever the key has an odd number of double quotes, the header
  field is not a well-formed quoted field.
\<close>

theorem header_field_not_escaped:
  assumes "CHR 0x22 \<in> set key"
  shows "header_field key = CHR 0x22 # key @ [CHR 0x22]
    \<and> csv_field (JObj [(h, JStr key)]) h = Inr (CHR 0x22 # double_quotes key @ [CHR 0x22])
    \<and> header_field key \<noteq> CHR 0x22 # double_quotes key @ [CHR 0x22]
    \<and> unquote (CHR 0x22 # double_quotes key @ [CHR 0x22]) = Some key
    \<and> unquote (header_field key) \<noteq> Some key
    \<and> (well_formed_quoted (header_field key) \<longleftrightarrow> (\<exists>t. key = double_quotes t))
    \<and> (\<forall>t. key = double_quotes t \<longrightarrow> unquote (header_field key) = Some t \<and> t \<noteq> key)
    \<and> (odd (count_list key (CHR 0x22)) \<longrightarrow> \<not> well_formed_quoted (header_field key))"
proof -
  have ne: "key \<noteq> []" using assms by auto
  have differs: "key \<noteq> double_quotes key"
    using length_double_quotes(1) [OF assms] by auto
  have reads: "unquote (header_field key) \<noteq> Some key"
    using unquote_body_SomeD [of key key] differs
    by (auto simp: header_field_def unquote_wrapped)
  have paired: "unquote (header_field key) = Some t \<and> t \<noteq> key" if "key = double_quotes t" for t
    using that differs
    by (auto simp: header_field_def unquote_wrapped unquote_body_double_quotes)
  have odd: "\<not> well_formed_quoted (header_field key)" if "odd (count_list key (CHR 0x22))"
  proof
    assume "well_formed_quoted (header_field key)"
    then obtain t where "key = double_quotes t"
      using well_formed_header_field by blast
    with that show False by (simp add: count_double_quotes)
  qed
  show ?thesis
    using ne differs reads paired odd well_formed_header_field [of key]
    by (simp add: header_field_def csv_field_def unquote_wrapped unquote_body_double_quotes)
qed

theorem header_field_not_escaped_witness:
  "header_field ''a\"b\"c'' = ''\"a\"b\"c\"''
    \<and> csv_field (JObj [(''q1'', JStr ''a\"b\"c'')]) ''q1'' = Inr ''\"a\"\"b\"\"c\"''
    \<and> unquote ''\"a\"\"b\"\"c\"'' = Some ''a\"b\"c''
    \<and> unquote (header_field ''a\"b\"c'') \<noteq> Some ''a\"b\"c''
    \<and> \<not> well_formed_quoted (header_field ''a\"b\"c'')
    \<and> (\<forall>t. ''a\"b\"c'' \<noteq> double_quotes t)
    \<and> well_formed_quoted (header_field ''say \"\"hi\"\"'')
    \<and> unquote (header_field ''say \"\"hi\"\"'') = Some ''say \"hi\"''"
proof -
  have h: "CHR 0x22 \<in> set ''a\"b\"c''" by simp
  have n: "\<not> well_formed_quoted (header_field ''a\"b\"c'')"
    by (simp add: well_formed_quoted_def unquote_def header_field_def)
  have h': "CHR 0x22 \<in> set ''say \"\"hi\"\"''" by simp
  have d: "''say \"\"hi\"\"'' = double_quotes ''say \"hi\"''" by simp
  have "well_formed_quoted (header_field ''say \"\"hi\"\"'')
    \<and> unquote (header_field ''say \"\"hi\"\"'') = Some ''say \"hi\"''"
    using header_field_not_escaped [OF h', of "''q1''"] d by blast
  with header_field_not_escaped [OF h, of "''q1''"] n
  show ?thesis by (simp add: header_field_def)
qed

text \<open>
  The claim C10 as stated fails for the key made of two double quotes: its header field is
  four double quotes, a well-formed quoted field (it reads as one double quote).
\<close>

theorem header_field_well_formed_counterexample:
  "\<not> (\<forall>key. CHR 0x22 \<in> set key \<longrightarrow> \<not> well_formed_quoted (header_field key))"
proof
  assume "\<forall>key. CHR 0x22 \<in> set key \<longrightarrow> \<not> well_formed_quoted (header_field key)"
  then have "\<not> well_formed_quoted (header_field [CHR 0x22, CHR 0x22])" by simp
  then show False
    by (simp add: well_formed_quoted_def unquote_def header_field_def)
qed

text \<open>
  C3, evaluated where the code departs from it. The first record has the key
  \<^verbatim>\<open>constructor\<close>, the second does not; in the second row the column holds the text of the
  function that every object inherits under that name, not an empty field.
\<close>

theorem missing_inherited_key_row:
  "csvContent [JObj [(''userType'', JStr ''stakeholder''), (''constructor'', JStr ''Acme'')],
               JObj [(''userType'', JStr ''participant'')]]
   = Inr (''\"constructor\",\"userType\"'' @ [CHR 0x0A]
          @ ''\"Acme\",\"stakeholder\"'' @ [CHR 0x0A]
          @ ''\"function Object() { [native code] }\",\"participant\"'')"
  by code_simp

text \<open>
  C4, evaluated where the code departs from it. The rating \<^verbatim>\<open>0\<close> is falsy, so
  \<^verbatim>\<open>response[header] || ''\<close> replaces it by the empty string and the field is empty; the
  rating \<^verbatim>\<open>5\<close> is rendered as \<^verbatim>\<open>"5"\<close>.
\<close>

theorem zero_rating_field:
  "csv_field (JObj [(''userType'', JStr ''participant''), (''rating'', JNum 0)]) ''rating''
     = Inr ''\"\"''
   \<and> csv_field (JObj [(''userType'', JStr ''participant''), (''rating'', JNum 5)]) ''rating''
     = Inr ''\"5\"''"
  by code_simp

theorem saveAsCSV_projection_witness:
  "\<exists>csvRows.
     saveAsCSV [JObj record_a, JObj record_b] (store_with ''[]'') =
       Inr (store_with ''[]''\<lparr>responses_dir := Some ((\<lambda>p. None)
          (survey_responses_json \<mapsto> ''[]'',
           survey_responses_csv \<mapsto>
             join [CHR 0x0A]
               (csvHeader (sorted_list_of_set (\<Union>r\<in>set [record_a, record_b]. fst ` set r))
                # csvRows)))\<rparr>)
     \<and> length csvRows = 2"
proof -
  let ?csv = "''\"event_question\",\"id\",\"rating_0\",\"timestamp\",\"userType\"'' @ [CHR 0x0A]
        @ ''\"Workshop\",\"1740823200000_k3j9x0q2a\",\"\",\"2025-03-01T10:00:00.000Z\",\"participant\"''
        @ [CHR 0x0A]
        @ ''\"\",\"1740823500000_7hq2m9zzp\",\"4\",\"2025-02-27T09:00:00.000Z\",\"stakeholder\"''"
  let ?s' = "store_with ''[]''\<lparr>responses_dir := Some ((\<lambda>p. None)
          (survey_responses_json \<mapsto> ''[]'', survey_responses_csv \<mapsto> ?csv))\<rparr>"
  have h1: "[record_a, record_b] \<noteq> []" by simp
  have h2: "saveAsCSV (map JObj [record_a, record_b]) (store_with ''[]'') = Inr ?s'"
    using csv_a_b by (simp add: saveAsCSV_def writeFile_def store_with_def)
  from saveAsCSV_projection [OF h1 h2]
  obtain d csvRows where
    "responses_dir (store_with ''[]'') = Some d"
    "?s' = store_with ''[]''\<lparr>responses_dir := Some (d(survey_responses_csv \<mapsto>
            join [CHR 0x0A]
              (csvHeader (sorted_list_of_set (\<Union>r\<in>set [record_a, record_b]. fst ` set r))
               # csvRows)))\<rparr>"
    "length csvRows = length [record_a, record_b]"
    by blast
  then show ?thesis
    using h2 by (intro exI [of _ csvRows]) (auto simp: store_with_def)
qed

end
